theory Spec2Isabelle
  imports Main
begin

section \<open>The capstone text adventure (lesson 35): data model\<close>

text \<open>
  The development embeds \<^verbatim>\<open>35_capstone_awesome_text_adventure.c\<close>: the world model,
  the two-pass loader, the command dispatcher and the game loop. The ncurses windows
  are presentation only and are left out of the state.
\<close>

definition MAX_DIRECTIONS :: nat where "MAX_DIRECTIONS = 4"
definition MAX_ROOMS :: nat where "MAX_ROOMS = 100"
definition MAX_LOG_MESSAGES :: nat where "MAX_LOG_MESSAGES = 10"
definition INPUT_BUFFER_SIZE :: nat where "INPUT_BUFFER_SIZE = 100"

datatype Direction = NORTH | SOUTH | EAST | WEST

text \<open>The integer value of an enumerator, used as the index into \<^verbatim>\<open>exits\<close>.\<close>

fun dir_index :: "Direction \<Rightarrow> nat" where
  "dir_index NORTH = 0"
| "dir_index SOUTH = 1"
| "dir_index EAST = 2"
| "dir_index WEST = 3"

text \<open>
  Every \<^verbatim>\<open>Room\<close> is allocated exactly once, by \<^verbatim>\<open>parse_room\<close>, which stores
  the pointer at \<^verbatim>\<open>all_rooms[num_rooms]\<close>. A \<^verbatim>\<open>Room *\<close> is therefore modelled by the
  position of the room in \<^verbatim>\<open>all_rooms\<close>; \<^verbatim>\<open>NULL\<close> is \<open>None\<close>. Two pointers are equal
  exactly when the positions are, so writing through one pointer is the list update
  at that position and aliasing is kept. The model keeps the used prefix of the array
  \<^verbatim>\<open>all_rooms\<close>, so \<^verbatim>\<open>num_rooms\<close> is its length.
\<close>

type_synonym room_ptr = nat

record Room =
  room_id :: int
  description :: string
  exits :: "room_ptr option list"

text \<open>
  \<^verbatim>\<open>log_messages\<close> is the C array of \<^verbatim>\<open>MAX_LOG_MESSAGES\<close> string pointers
  (\<open>None\<close> is \<^verbatim>\<open>NULL\<close>) with its fill count \<^verbatim>\<open>log_count\<close>.
\<close>

record GameState =
  current_room :: "room_ptr option"
  all_rooms :: "Room list"
  game_should_close :: bool
  log_messages :: "string option list"
  log_count :: nat

definition num_rooms :: "GameState \<Rightarrow> nat" where
  "num_rooms game = length (all_rooms game)"

text \<open>The state after \<^verbatim>\<open>memset(game, 0, sizeof(GameState))\<close>.\<close>

definition zeroed_game :: GameState where
  "zeroed_game =
     \<lparr>current_room = None, all_rooms = [], game_should_close = False,
      log_messages = replicate MAX_LOG_MESSAGES None, log_count = 0\<rparr>"

section \<open>The transcript log\<close>

text \<open>
  The loop \<^verbatim>\<open>for (i = 0; i < MAX_LOG_MESSAGES - 1; i++) log[i] = log[i + 1];\<close>
  started at index \<open>i\<close>.
\<close>

function shift_up :: "string option list \<Rightarrow> nat \<Rightarrow> string option list" where
  "shift_up msgs i =
     (if i < MAX_LOG_MESSAGES - 1 then shift_up (msgs[i := msgs ! (i + 1)]) (i + 1) else msgs)"
  by pat_completeness auto
termination
  by (relation "measure (\<lambda>(msgs, i). MAX_LOG_MESSAGES - 1 - i)") auto

declare shift_up.simps [simp del]

definition ui_log :: "GameState \<Rightarrow> string \<Rightarrow> GameState" where
  "ui_log game message =
     (let game1 =
        (if log_count game \<ge> MAX_LOG_MESSAGES
         then game\<lparr>log_messages := shift_up (log_messages game) 0,
                   log_count := log_count game - 1\<rparr>
         else game)
      in game1\<lparr>log_messages := (log_messages game1)[log_count game1 := Some message],
               log_count := log_count game1 + 1\<rparr>)"

text \<open>The transcript: the strings held in the first \<^verbatim>\<open>log_count\<close> slots, oldest first.\<close>

definition transcript :: "GameState \<Rightarrow> string list" where
  "transcript game = map the (take (log_count game) (log_messages game))"

text \<open>
  The log of a running game: the array has its \<^verbatim>\<open>MAX_LOG_MESSAGES\<close> slots and the
  count does not exceed them.
\<close>

definition log_ok :: "GameState \<Rightarrow> bool" where
  "log_ok game \<longleftrightarrow>
     length (log_messages game) = MAX_LOG_MESSAGES \<and> log_count game \<le> MAX_LOG_MESSAGES"

section \<open>The C library functions the loader calls\<close>

text \<open>
  A file is the sequence of its bytes. \<^verbatim>\<open>fgets(line, n, file)\<close> stores at most
  \<open>n - 1\<close> bytes, stopping after a newline, and returns \<^verbatim>\<open>NULL\<close> at end of file
  when nothing was read. \<open>read_chunk\<close> returns the bytes stored and the rest of the
  stream.
\<close>

fun read_chunk :: "nat \<Rightarrow> string \<Rightarrow> string \<times> string" where
  "read_chunk 0 stream = ([], stream)"
| "read_chunk (Suc k) [] = ([], [])"
| "read_chunk (Suc k) (c # cs) =
     (if c = CHR 0x0A then ([c], cs)
      else (case read_chunk k cs of (line, rest) \<Rightarrow> (c # line, rest)))"

definition fgets :: "nat \<Rightarrow> string \<Rightarrow> (string \<times> string) option" where
  "fgets n stream = (if stream = [] then None else Some (read_chunk (n - 1) stream))"

lemma read_chunk_rest: "length (snd (read_chunk k stream)) \<le> length stream"
  by (induction k stream rule: read_chunk.induct) (auto split: prod.splits)

lemma fgets_shorter:
  assumes "2 \<le> n" and "fgets n stream = Some (line, rest)"
  shows "length rest < length stream"
proof (cases stream)
  case Nil
  with assms show ?thesis by (simp add: fgets_def)
next
  case (Cons c cs)
  obtain k where k: "n - 1 = Suc k"
    using assms(1) by (cases "n - 1") auto
  have "length (snd (read_chunk k cs)) \<le> length cs"
    by (rule read_chunk_rest)
  with assms Cons k show ?thesis
    by (auto simp: fgets_def split: if_splits prod.splits)
qed

text \<open>
  The buffers that the successive calls of \<^verbatim>\<open>fgets(line, sizeof(line), file)\<close> with
  \<^verbatim>\<open>char line[512]\<close> return until the call that returns \<^verbatim>\<open>NULL\<close>. Both passes of
  \<^verbatim>\<open>load_world\<close> iterate over this sequence (\<^verbatim>\<open>rewind\<close> restarts it).
\<close>

function fgets_lines :: "string \<Rightarrow> string list" where
  "fgets_lines stream =
     (case fgets 512 stream of
        None \<Rightarrow> []
      | Some (line, rest) \<Rightarrow> line # fgets_lines rest)"
  by pat_completeness auto
termination
proof (relation "measure length")
  fix stream :: string and x2 line rest
  assume "fgets 512 stream = Some x2" and "(line, rest) = x2"
  then have "fgets 512 stream = Some (line, rest)"
    by simp
  then show "(rest, stream) \<in> measure length"
    using fgets_shorter [of 512 stream line rest] by simp
qed simp

declare fgets_lines.simps [simp del]

text \<open>
  The string functions of C read a buffer up to its first NUL byte.
\<close>

definition c_str :: "string \<Rightarrow> string" where
  "c_str buf = takeWhile (\<lambda>c. c \<noteq> CHR 0x00) buf"

text \<open>\<^verbatim>\<open>strncmp(line, prefix, n) == 0\<close> for a NUL-free \<open>prefix\<close> of length \<open>n\<close>.\<close>

definition strncmp_eq :: "string \<Rightarrow> string \<Rightarrow> nat \<Rightarrow> bool" where
  "strncmp_eq line prefix n \<longleftrightarrow> take n line = take n prefix"

definition isspace :: "char \<Rightarrow> bool" where
  "isspace c \<longleftrightarrow>
     c = CHR '' '' \<or> c = CHR 0x09 \<or> c = CHR 0x0A \<or> c = CHR 0x0B \<or> c = CHR 0x0C \<or> c = CHR 0x0D"

definition isdigit :: "char \<Rightarrow> bool" where
  "isdigit c \<longleftrightarrow> (48::nat) \<le> of_char c \<and> of_char c \<le> (57::nat)"

definition digit_value :: "char \<Rightarrow> int" where
  "digit_value c = int (of_char c) - 48"

text \<open>
  The directives of the two \<^verbatim>\<open>sscanf\<close> formats. A white-space directive skips any
  amount of white space, also none; an ordinary character must match the next input
  character; \<^verbatim>\<open>%d\<close> skips white space and reads an optional sign and at least one
  decimal digit; \<^verbatim>\<open>%s\<close> skips white space and reads a non-empty run of non-space
  characters; \<^verbatim>\<open>%[^"]\<close> reads a non-empty run of characters other than the double
  quote, without skipping white space. Each returns the converted value and the rest
  of the input, or \<open>None\<close> on a matching failure.

  For a numeral within the range of \<^verbatim>\<open>int\<close>, \<^verbatim>\<open>%d\<close> stores its value. For a
  numeral outside that range C defines no result; the model takes what the GNU C
  library does on a 64-bit system: the digits are converted as by \<^verbatim>\<open>strtol\<close>, which
  saturates at the range of \<^verbatim>\<open>long\<close>, and the \<^verbatim>\<open>long\<close> is stored into the
  \<^verbatim>\<open>int\<close>, which keeps its low 32 bits.

  \<^verbatim>\<open>%s\<close> and \<^verbatim>\<open>%[^"]\<close> carry no field width in the source: they store the
  whole token and a terminating NUL whatever the size of the array they are given.
\<close>

text \<open>
  A call either returns a value or writes past the end of a buffer. After an overrun
  the behaviour of the program is undefined, so the model keeps it apart from every
  return value, \<^verbatim>\<open>NULL\<close> and 0 included.
\<close>

datatype 'a outcome = Overrun | Returns 'a

definition strtol_saturate :: "int \<Rightarrow> int" where
  "strtol_saturate v = max (- (2 ^ 63)) (min (2 ^ 63 - 1) v)"

definition int_of_long :: "int \<Rightarrow> int" where
  "int_of_long v = (v + 2 ^ 31) mod 2 ^ 32 - 2 ^ 31"

definition skip_space :: "string \<Rightarrow> string" where
  "skip_space s = dropWhile isspace s"

fun match_literal :: "string \<Rightarrow> string \<Rightarrow> string option" where
  "match_literal [] s = Some s"
| "match_literal (p # ps) [] = None"
| "match_literal (p # ps) (c # cs) = (if p = c then match_literal ps cs else None)"

definition decimal :: "string \<Rightarrow> int" where
  "decimal digits = foldl (\<lambda>acc c. 10 * acc + digit_value c) 0 digits"

definition scan_int :: "string \<Rightarrow> (int \<times> string) option" where
  "scan_int s =
     (let s1 = skip_space s;
          negative = (take 1 s1 = ''-'');
          s2 = (if take 1 s1 = ''-'' \<or> take 1 s1 = ''+'' then drop 1 s1 else s1);
          digits = takeWhile isdigit s2
      in if digits = [] then None
         else Some (int_of_long
                      (strtol_saturate (if negative then - decimal digits else decimal digits)),
                    dropWhile isdigit s2))"

definition scan_string :: "string \<Rightarrow> (string \<times> string) option" where
  "scan_string s =
     (let s1 = skip_space s;
          token = takeWhile (\<lambda>c. \<not> isspace c) s1
      in if token = [] then None else Some (token, dropWhile (\<lambda>c. \<not> isspace c) s1))"

definition scan_not_quote :: "string \<Rightarrow> (string \<times> string) option" where
  "scan_not_quote s =
     (let token = takeWhile (\<lambda>c. c \<noteq> CHR 0x22) s
      in if token = [] then None else Some (token, dropWhile (\<lambda>c. c \<noteq> CHR 0x22) s))"

text \<open>
  \<^verbatim>\<open>sscanf(line, "room %d \"%[^\"]\"", &id, desc)\<close>: the result is \<open>Some (id, desc)\<close>
  exactly when the call returns 2. The closing quote of the format comes after the
  last conversion and does not change the return value.
\<close>

definition sscanf_room :: "string \<Rightarrow> (int \<times> string) option" where
  "sscanf_room line =
     (case match_literal ''room'' line of
        None \<Rightarrow> None
      | Some s1 \<Rightarrow>
          (case scan_int (skip_space s1) of
             None \<Rightarrow> None
           | Some (rid, s2) \<Rightarrow>
               (case match_literal [CHR 0x22] (skip_space s2) of
                  None \<Rightarrow> None
                | Some s3 \<Rightarrow>
                    (case scan_not_quote s3 of
                       None \<Rightarrow> None
                     | Some (desc, s4) \<Rightarrow> Some (rid, desc)))))"

text \<open>
  The description is stored into \<^verbatim>\<open>char desc[512]\<close>. The line comes from a buffer of
  512 bytes and the description is a proper part of it, so it fits (lemma
  \<open>sscanf_room_fits\<close> below).
\<close>

text \<open>
  \<^verbatim>\<open>sscanf(line, "link %d %s %d", &from_id, dir_str, &to_id)\<close> with
  \<^verbatim>\<open>char dir_str[10]\<close>. When the first number is read, \<^verbatim>\<open>%s\<close> stores the direction
  token and its NUL into \<^verbatim>\<open>dir_str\<close>: a token of ten or more characters overruns
  the array. Otherwise the result is \<open>Returns (Some (from_id, dir_str, to_id))\<close>
  exactly when the call returns 3, and \<open>Returns None\<close> when it returns less.
\<close>

definition DIR_STR_SIZE :: nat where "DIR_STR_SIZE = 10"

definition sscanf_link :: "string \<Rightarrow> (int \<times> string \<times> int) option outcome" where
  "sscanf_link line =
     (case match_literal ''link'' line of
        None \<Rightarrow> Returns None
      | Some s1 \<Rightarrow>
          (case scan_int (skip_space s1) of
             None \<Rightarrow> Returns None
           | Some (from_id, s2) \<Rightarrow>
               (case scan_string (skip_space s2) of
                  None \<Rightarrow> Returns None
                | Some (dir_str, s3) \<Rightarrow>
                    if length dir_str + 1 > DIR_STR_SIZE then Overrun
                    else (case scan_int (skip_space s3) of
                            None \<Rightarrow> Returns None
                          | Some (to_id, s4) \<Rightarrow> Returns (Some (from_id, dir_str, to_id))))))"

section \<open>World loading and parsing\<close>

text \<open>
  The loop of \<^verbatim>\<open>find_room_by_id\<close> over \<^verbatim>\<open>all_rooms[i]\<close>, \<open>i\<close> counting up; the
  first argument holds the rooms from index \<open>i\<close> on.
\<close>

fun find_room_loop :: "Room list \<Rightarrow> nat \<Rightarrow> int \<Rightarrow> room_ptr option" where
  "find_room_loop [] i rid = None"
| "find_room_loop (r # rs) i rid =
     (if room_id r = rid then Some i else find_room_loop rs (Suc i) rid)"

definition find_room_by_id :: "GameState \<Rightarrow> int \<Rightarrow> room_ptr option" where
  "find_room_by_id game rid = find_room_loop (all_rooms game) 0 rid"

text \<open>
  \<^verbatim>\<open>parse_room\<close> and \<^verbatim>\<open>parse_link\<close> return 0 or 1 and change the game through the
  pointer; the model returns \<open>None\<close> for 0 and the changed game for 1. In
  \<^verbatim>\<open>parse_link\<close> the call of \<^verbatim>\<open>sscanf\<close> can overrun \<^verbatim>\<open>dir_str\<close>, and then
  \<^verbatim>\<open>parse_link\<close> has no return value. Allocation with \<^verbatim>\<open>malloc\<close> is taken to
  succeed, here and in \<^verbatim>\<open>load_world\<close>.
\<close>

definition new_room :: "int \<Rightarrow> string \<Rightarrow> Room" where
  "new_room rid desc =
     \<lparr>room_id = rid, description = desc, exits = replicate MAX_DIRECTIONS None\<rparr>"

definition parse_room :: "string \<Rightarrow> GameState \<Rightarrow> GameState option" where
  "parse_room line game =
     (if num_rooms game \<ge> MAX_ROOMS then None
      else (case sscanf_room line of
              None \<Rightarrow> None
            | Some (rid, desc) \<Rightarrow>
                Some (game\<lparr>all_rooms := all_rooms game @ [new_room rid desc]\<rparr>)))"

text \<open>The \<^verbatim>\<open>strcmp\<close> chain of \<^verbatim>\<open>parse_link\<close>.\<close>

definition direction_code :: "string \<Rightarrow> Direction option" where
  "direction_code dir_str =
     (if dir_str = ''n'' then Some NORTH
      else if dir_str = ''s'' then Some SOUTH
      else if dir_str = ''e'' then Some EAST
      else if dir_str = ''w'' then Some WEST
      else None)"

text \<open>The assignment \<^verbatim>\<open>from_room->exits[dir] = to_room\<close>.\<close>

definition set_exit :: "Room list \<Rightarrow> room_ptr \<Rightarrow> Direction \<Rightarrow> room_ptr \<Rightarrow> Room list" where
  "set_exit rooms from_room dir to_room =
     rooms[from_room :=
       (rooms ! from_room)\<lparr>exits := (exits (rooms ! from_room))[dir_index dir := Some to_room]\<rparr>]"

definition parse_link :: "string \<Rightarrow> GameState \<Rightarrow> GameState option outcome" where
  "parse_link line game =
     (case sscanf_link line of
        Overrun \<Rightarrow> Overrun
      | Returns None \<Rightarrow> Returns None
      | Returns (Some (from_id, dir_str, to_id)) \<Rightarrow>
          (case find_room_by_id game from_id of
             None \<Rightarrow> Returns None
           | Some from_room \<Rightarrow>
               (case find_room_by_id game to_id of
                  None \<Rightarrow> Returns None
                | Some to_room \<Rightarrow>
                    (case direction_code dir_str of
                       None \<Rightarrow> Returns None
                     | Some dir \<Rightarrow>
                         Returns (Some (game\<lparr>all_rooms :=
                                          set_exit (all_rooms game) from_room dir to_room\<rparr>))))))"

text \<open>
  The two \<^verbatim>\<open>while (fgets(...))\<close> loops of \<^verbatim>\<open>load_world\<close>, over the buffers read.
  A failing \<^verbatim>\<open>parse_room\<close> or \<^verbatim>\<open>parse_link\<close> frees the game and returns \<^verbatim>\<open>NULL\<close>;
  an overrun in \<^verbatim>\<open>parse_link\<close> is an overrun of the load.
\<close>

definition is_room_line :: "string \<Rightarrow> bool" where
  "is_room_line line \<longleftrightarrow> strncmp_eq line ''room'' 4"

definition is_link_line :: "string \<Rightarrow> bool" where
  "is_link_line line \<longleftrightarrow> strncmp_eq line ''link'' 4"

fun pass1 :: "string list \<Rightarrow> GameState \<Rightarrow> GameState option" where
  "pass1 [] game = Some game"
| "pass1 (line # rest) game =
     (if is_room_line line
      then (case parse_room line game of None \<Rightarrow> None | Some game' \<Rightarrow> pass1 rest game')
      else pass1 rest game)"

fun pass2 :: "string list \<Rightarrow> GameState \<Rightarrow> GameState option outcome" where
  "pass2 [] game = Returns (Some game)"
| "pass2 (line # rest) game =
     (if is_link_line line
      then (case parse_link line game of
              Overrun \<Rightarrow> Overrun
            | Returns None \<Rightarrow> Returns None
            | Returns (Some game') \<Rightarrow> pass2 rest game')
      else pass2 rest game)"

text \<open>The lines of a file as the C string functions see them.\<close>

definition file_lines :: "string \<Rightarrow> string list" where
  "file_lines file = map c_str (fgets_lines file)"

text \<open>
  \<^verbatim>\<open>load_world\<close>. The argument is what \<^verbatim>\<open>fopen(filename, "r")\<close> gives: \<open>None\<close>
  when the file cannot be opened, otherwise the contents of the file. The result is
  \<open>Returns None\<close> for \<^verbatim>\<open>NULL\<close>, \<open>Returns (Some game)\<close> for the loaded game, and
  \<open>Overrun\<close> when the load writes past \<^verbatim>\<open>dir_str\<close>.
\<close>

definition load_world :: "string option \<Rightarrow> GameState option outcome" where
  "load_world opened =
     (case opened of
        None \<Rightarrow> Returns None
      | Some file \<Rightarrow>
          (case pass1 (file_lines file) zeroed_game of
             None \<Rightarrow> Returns None
           | Some game \<Rightarrow> pass2 (file_lines file) game))"

section \<open>Command handling\<close>

fun direction_to_string :: "Direction \<Rightarrow> string" where
  "direction_to_string NORTH = ''north''"
| "direction_to_string SOUTH = ''south''"
| "direction_to_string EAST = ''east''"
| "direction_to_string WEST = ''west''"

text \<open>
  The handlers take the game and the argument token (\<open>None\<close> for \<^verbatim>\<open>NULL\<close>) and
  return the changed game. They dereference \<^verbatim>\<open>game->player.current_room\<close>, which
  \<^verbatim>\<open>main\<close> has set to a room before the first handler runs; a game whose current room
  is \<^verbatim>\<open>NULL\<close> or dangling is outside the defined behaviour of the program, and the
  claims below are stated for games whose current room is a loaded room.
\<close>

definition handle_quit :: "GameState \<Rightarrow> string option \<Rightarrow> GameState" where
  "handle_quit game argument = game\<lparr>game_should_close := True\<rparr>"

text \<open>
  The loop of \<^verbatim>\<open>handle_look\<close> over the directions, carrying \<^verbatim>\<open>exits_str\<close> and
  \<^verbatim>\<open>found_exit\<close>. The longest string it builds has 29 characters and fits
  \<^verbatim>\<open>exits_str[100]\<close>.
\<close>

fun exits_loop :: "Room \<Rightarrow> Direction list \<Rightarrow> string \<times> bool \<Rightarrow> string \<times> bool" where
  "exits_loop room [] acc = acc"
| "exits_loop room (d # ds) (exits_str, found_exit) =
     (if exits room ! dir_index d \<noteq> None
      then exits_loop room ds (exits_str @ direction_to_string d @ '' '', True)
      else exits_loop room ds (exits_str, found_exit))"

definition handle_look :: "GameState \<Rightarrow> string option \<Rightarrow> GameState" where
  "handle_look game argument =
     (let room = all_rooms game ! the (current_room game);
          game1 = ui_log game (description room)
      in (case exits_loop room [NORTH, SOUTH, EAST, WEST] (''Exits: '', False) of
            (exits_str, found_exit) \<Rightarrow>
              if found_exit then ui_log game1 exits_str
              else ui_log game1 ''There are no obvious exits.''))"

text \<open>
  The \<^verbatim>\<open>strcmp\<close> chain of \<^verbatim>\<open>handle_go\<close>; \<open>None\<close> stands for \<^verbatim>\<open>dir == -1\<close>.
\<close>

definition go_direction :: "string \<Rightarrow> Direction option" where
  "go_direction argument =
     (if argument = ''n'' \<or> argument = ''north'' then Some NORTH
      else if argument = ''s'' \<or> argument = ''south'' then Some SOUTH
      else if argument = ''e'' \<or> argument = ''east'' then Some EAST
      else if argument = ''w'' \<or> argument = ''west'' then Some WEST
      else None)"

definition handle_go :: "GameState \<Rightarrow> string option \<Rightarrow> GameState" where
  "handle_go game argument =
     (case argument of
        None \<Rightarrow> ui_log game ''Go where?''
      | Some arg \<Rightarrow>
          (case go_direction arg of
             None \<Rightarrow> ui_log game ''That's not a valid direction.''
           | Some dir \<Rightarrow>
               (case exits (all_rooms game ! the (current_room game)) ! dir_index dir of
                  Some next_room \<Rightarrow> handle_look (game\<lparr>current_room := Some next_room\<rparr>) None
                | None \<Rightarrow> ui_log game ''You can't go that way.'')))"

definition handle_help :: "GameState \<Rightarrow> string option \<Rightarrow> GameState" where
  "handle_help game argument =
     (let game1 = ui_log game ''--- Available Commands ---'';
          game2 = ui_log game1 ''look (l): Describe the current room and exits.'';
          game3 = ui_log game2
                    ''go <dir>: Move in a direction (north, south, east, west, or n,s,e,w).'';
          game4 = ui_log game3 ''help: Show this help message.''
      in ui_log game4 ''quit/exit: Leave the game.'')"

type_synonym handler = "GameState \<Rightarrow> string option \<Rightarrow> GameState"

definition command_table :: "(string \<times> handler) list" where
  "command_table =
     [(''quit'', handle_quit), (''exit'', handle_quit),
      (''look'', handle_look), (''l'', handle_look),
      (''go'', handle_go),
      (''north'', handle_go), (''south'', handle_go), (''east'', handle_go), (''west'', handle_go),
      (''n'', handle_go), (''s'', handle_go), (''e'', handle_go), (''w'', handle_go),
      (''help'', handle_help)]"

text \<open>The scan of the command table up to its sentinel; the first match wins.\<close>

fun lookup_command :: "string \<Rightarrow> (string \<times> handler) list \<Rightarrow> handler option" where
  "lookup_command verb [] = None"
| "lookup_command verb ((command, handler) # table) =
     (if verb = command then Some handler else lookup_command verb table)"

definition tolower :: "char \<Rightarrow> char" where
  "tolower c =
     (if (65::nat) \<le> of_char c \<and> of_char c \<le> (90::nat) then char_of (of_char c + (32::nat))
      else c)"

text \<open>
  \<^verbatim>\<open>strtok\<close> with the delimiters space and newline: it skips leading delimiters and
  returns the token and the position after the delimiter that ends it, where the next
  call \<^verbatim>\<open>strtok(NULL, ...)\<close> goes on; \<open>None\<close> when no token is left.
\<close>

definition is_delim :: "char \<Rightarrow> bool" where
  "is_delim c \<longleftrightarrow> c = CHR '' '' \<or> c = CHR 0x0A"

definition strtok :: "string \<Rightarrow> (string \<times> string) option" where
  "strtok s =
     (let s1 = dropWhile is_delim s
      in if s1 = [] then None
         else Some (takeWhile (\<lambda>c. \<not> is_delim c) s1,
                    drop 1 (dropWhile (\<lambda>c. \<not> is_delim c) s1)))"

definition is_direction_word :: "string \<Rightarrow> bool" where
  "is_direction_word verb \<longleftrightarrow>
     verb = ''n'' \<or> verb = ''north'' \<or> verb = ''s'' \<or> verb = ''south'' \<or>
     verb = ''e'' \<or> verb = ''east'' \<or> verb = ''w'' \<or> verb = ''west''"

definition parse_and_execute_command :: "GameState \<Rightarrow> string \<Rightarrow> GameState" where
  "parse_and_execute_command game input =
     (case strtok (map tolower input) of
        None \<Rightarrow> game
      | Some (verb0, rest) \<Rightarrow>
          (let argument0 = map_option fst (strtok rest);
               argument = (if is_direction_word verb0 then Some verb0 else argument0);
               verb = (if is_direction_word verb0 then ''go'' else verb0)
           in (case lookup_command verb command_table of
                 Some handler \<Rightarrow> handler game argument
               | None \<Rightarrow> ui_log game ''I don't understand that command.'')))"

section \<open>The game session\<close>

text \<open>
  The input of a session is the finite sequence of lines the player types, followed by
  end of input. \<^verbatim>\<open>ui_get_input\<close> calls \<^verbatim>\<open>wgetnstr(win, buffer, INPUT_BUFFER_SIZE - 1)\<close>
  and ignores its result. The call stores at most \<^verbatim>\<open>INPUT_BUFFER_SIZE - 1\<close>
  characters of the line typed; at end of input it stores the empty string and returns
  \<^verbatim>\<open>ERR\<close>. The model returns the buffer and the input still pending.
\<close>

definition ui_get_input :: "string list \<Rightarrow> string \<times> string list" where
  "ui_get_input pending =
     (case pending of
        [] \<Rightarrow> ([], [])
      | typed # rest \<Rightarrow> (take (INPUT_BUFFER_SIZE - 1) typed, rest))"

text \<open>
  \<^verbatim>\<open>game_loop\<close>. \<^verbatim>\<open>ui_draw\<close> only renders and changes nothing. The loop has no
  bound on its iterations, so the model is a partial function: \<open>None\<close> means that
  the loop does not return. When it returns, the result is the final game and the
  input lines that were never read.
\<close>

partial_function (option) game_loop :: "GameState \<Rightarrow> string list \<Rightarrow> (GameState \<times> string list) option" where
  "game_loop game pending =
     (if game_should_close game then Some (game, pending)
      else (case ui_get_input pending of
              (input_buffer, rest) \<Rightarrow>
                game_loop (parse_and_execute_command game input_buffer) rest))"

text \<open>
  The part of \<^verbatim>\<open>main\<close> between \<^verbatim>\<open>load_world\<close> and \<^verbatim>\<open>game_loop\<close>: the player
  starts in the room with id 0, and a map without it ends the program (\<open>None\<close>).
\<close>

definition start_game :: "GameState \<Rightarrow> GameState option" where
  "start_game game =
     (case find_room_by_id game 0 of
        None \<Rightarrow> None
      | Some start \<Rightarrow>
          Some (handle_look
                  (ui_log (game\<lparr>current_room := Some start\<rparr>)
                     ''Welcome to the Awesome Text Adventure! Type 'help' for commands.'')
                  None))"

declare game_loop.simps [code]

section \<open>Notions used to state the claims\<close>

subsection \<open>The names of the directions\<close>

text \<open>
  The map format writes the directions as \<^verbatim>\<open>n\<close>, \<^verbatim>\<open>s\<close>, \<^verbatim>\<open>e\<close>, \<^verbatim>\<open>w\<close>; the
  player may also type the words that \<^verbatim>\<open>direction_to_string\<close> returns. The lemmas
  \<open>direction_code_iff\<close> and \<open>go_direction_iff\<close> show that the comparison chains
  of \<^verbatim>\<open>parse_link\<close> and \<^verbatim>\<open>handle_go\<close> decode exactly these names.
\<close>

fun direction_letter :: "Direction \<Rightarrow> string" where
  "direction_letter NORTH = ''n''"
| "direction_letter SOUTH = ''s''"
| "direction_letter EAST = ''e''"
| "direction_letter WEST = ''w''"

definition direction_letters :: "string list" where
  "direction_letters = [''n'', ''s'', ''e'', ''w'']"

subsection \<open>What a map declares\<close>

text \<open>
  The rooms that the room lines of a map declare, in file order, as \<^verbatim>\<open>parse_room\<close>
  creates them, and their ids. The argument is the list of the lines of the map.
\<close>

definition declared_rooms :: "string list \<Rightarrow> Room list" where
  "declared_rooms ls =
     concat (map (\<lambda>l. case sscanf_room l of None \<Rightarrow> [] | Some (rid, desc) \<Rightarrow> [new_room rid desc])
                 (filter is_room_line ls))"

text \<open>
  The edge that a link line stands for among given rooms: the from-room, the direction
  and the to-room that \<^verbatim>\<open>parse_link\<close> computes before it assigns; \<open>None\<close> when
  \<^verbatim>\<open>parse_link\<close> does not return 1. \<open>connect\<close> is the assignment for an edge.
\<close>

definition link_edge :: "Room list \<Rightarrow> string \<Rightarrow> (room_ptr \<times> Direction \<times> room_ptr) option" where
  "link_edge rooms line =
     (case sscanf_link line of
        Overrun \<Rightarrow> None
      | Returns None \<Rightarrow> None
      | Returns (Some (from_id, dir_str, to_id)) \<Rightarrow>
          (case find_room_loop rooms 0 from_id of
             None \<Rightarrow> None
           | Some from_room \<Rightarrow>
               (case find_room_loop rooms 0 to_id of
                  None \<Rightarrow> None
                | Some to_room \<Rightarrow>
                    (case direction_code dir_str of
                       None \<Rightarrow> None
                     | Some dir \<Rightarrow> Some (from_room, dir, to_room)))))"

definition connect :: "Room list \<Rightarrow> room_ptr \<times> Direction \<times> room_ptr \<Rightarrow> Room list" where
  "connect rooms e = (case e of (i, d, j) \<Rightarrow> set_exit rooms i d j)"

text \<open>The edges of the link lines of a map, in file order.\<close>

definition link_edges :: "Room list \<Rightarrow> string list \<Rightarrow> (room_ptr \<times> Direction \<times> room_ptr) list" where
  "link_edges rooms ls =
     concat (map (\<lambda>l. case link_edge rooms l of None \<Rightarrow> [] | Some e \<Rightarrow> [e])
                 (filter is_link_line ls))"

text \<open>\<^verbatim>\<open>room->exits[d]\<close> for the room at a position of the room table.\<close>

definition room_exit :: "Room list \<Rightarrow> room_ptr \<Rightarrow> Direction \<Rightarrow> room_ptr option" where
  "room_exit rooms r d = exits (rooms ! r) ! dir_index d"

text \<open>Every room has its \<^verbatim>\<open>MAX_DIRECTIONS\<close> exit slots.\<close>

definition exits_ok :: "Room list \<Rightarrow> bool" where
  "exits_ok rooms \<longleftrightarrow> (\<forall>r \<in> set rooms. length (exits r) = MAX_DIRECTIONS)"

text \<open>The to-room of the last edge in a list that leaves a room in a direction.\<close>

definition last_edge :: "(room_ptr \<times> Direction \<times> room_ptr) list \<Rightarrow> room_ptr \<Rightarrow> Direction \<Rightarrow> room_ptr option" where
  "last_edge es r d =
     map_option (\<lambda>e. snd (snd e)) (find (\<lambda>e. fst e = r \<and> fst (snd e) = d) (rev es))"

text \<open>The ids of the declared rooms, in file order.\<close>

definition declared_ids :: "string list \<Rightarrow> int list" where
  "declared_ids ls = map room_id (declared_rooms ls)"

text \<open>
  A link line that parses, carries one of the four direction letters and names ids
  that are among the given ones.
\<close>

definition link_declared :: "int list \<Rightarrow> string \<Rightarrow> bool" where
  "link_declared ids line =
     (case sscanf_link line of
        Overrun \<Rightarrow> False
      | Returns None \<Rightarrow> False
      | Returns (Some (from_id, dir_str, to_id)) \<Rightarrow>
          dir_str \<in> set direction_letters \<and> from_id \<in> set ids \<and> to_id \<in> set ids)"

text \<open>
  The lines of a map are valid: every room line parses, there are at most
  \<^verbatim>\<open>MAX_ROOMS\<close> of them, and every link line parses, carries a direction letter
  and names declared ids.
\<close>

definition lines_valid :: "string list \<Rightarrow> bool" where
  "lines_valid ls \<longleftrightarrow>
     (\<forall>l \<in> set ls. is_room_line l \<longrightarrow> sscanf_room l \<noteq> None) \<and>
     length (filter is_room_line ls) \<le> MAX_ROOMS \<and>
     (\<forall>l \<in> set ls. is_link_line l \<longrightarrow> link_declared (declared_ids ls) l)"

text \<open>The declared rooms after every link line has been applied in file order.\<close>

definition loaded_rooms :: "string list \<Rightarrow> Room list" where
  "loaded_rooms ls = foldl connect (declared_rooms ls) (link_edges (declared_rooms ls) ls)"

text \<open>A link line that names the given from-id and the letter of the given direction.\<close>

definition link_slot :: "string \<Rightarrow> int \<Rightarrow> Direction \<Rightarrow> bool" where
  "link_slot line from_id d =
     (case sscanf_link line of
        Overrun \<Rightarrow> False
      | Returns None \<Rightarrow> False
      | Returns (Some (f, dir_str, t)) \<Rightarrow> f = from_id \<and> dir_str = direction_letter d)"

text \<open>
  The slots that the link lines of a map fill: the from-id and the direction token of
  each.
\<close>

definition link_slots :: "string list \<Rightarrow> (int \<times> string) list" where
  "link_slots ls =
     concat (map (\<lambda>l. case sscanf_link l of
                          Overrun \<Rightarrow> []
                        | Returns None \<Rightarrow> []
                        | Returns (Some (f, dir_str, t)) \<Rightarrow> [(f, dir_str)])
                 (filter is_link_line ls))"

text \<open>
  A well-formed map: every declaration is valid by itself and resolves, no id is
  declared twice, and no exit slot is linked twice.
\<close>

definition well_formed_map :: "string \<Rightarrow> bool" where
  "well_formed_map file \<longleftrightarrow>
     lines_valid (file_lines file) \<and>
     distinct (declared_ids (file_lines file)) \<and>
     distinct (link_slots (file_lines file))"

subsection \<open>What the handlers emit and the games they run on\<close>

text \<open>The second line \<^verbatim>\<open>handle_look\<close> logs for a room.\<close>

definition exits_line :: "Room \<Rightarrow> string" where
  "exits_line room =
     (case exits_loop room [NORTH, SOUTH, EAST, WEST] (''Exits: '', False) of
        (exits_str, found_exit) \<Rightarrow>
          if found_exit then exits_str else ''There are no obvious exits.'')"

text \<open>
  The transcript after one more message: the oldest entry leaves when the log is full.
\<close>

definition appended :: "string list \<Rightarrow> string \<Rightarrow> string list" where
  "appended entries message =
     (if length entries = MAX_LOG_MESSAGES then tl entries else entries) @ [message]"

text \<open>
  Every exit that is set points to a loaded room (no dangling exits).
\<close>

definition exits_resolve :: "Room list \<Rightarrow> bool" where
  "exits_resolve rooms \<longleftrightarrow>
     (\<forall>r \<in> set rooms. \<forall>e \<in> set (exits r). case e of None \<Rightarrow> True | Some j \<Rightarrow> j < length rooms)"

text \<open>
  The games the handlers run on: the log array is intact, every room has its four
  exit slots, every exit set is a loaded room and the player stands in a loaded room.
\<close>

definition game_ok :: "GameState \<Rightarrow> bool" where
  "game_ok game \<longleftrightarrow>
     log_ok game \<and> exits_ok (all_rooms game) \<and> exits_resolve (all_rooms game) \<and>
     (case current_room game of None \<Rightarrow> False | Some here \<Rightarrow> here < num_rooms game)"

text \<open>
  The verb of an input line is \<^verbatim>\<open>quit\<close> or \<^verbatim>\<open>exit\<close>, read as the dispatcher reads
  it: lower-cased, first token.
\<close>

definition is_quit_command :: "string \<Rightarrow> bool" where
  "is_quit_command input =
     (case strtok (map tolower input) of
        None \<Rightarrow> False
      | Some (verb, rest) \<Rightarrow> verb = ''quit'' \<or> verb = ''exit'')"

text \<open>What \<^verbatim>\<open>ui_get_input\<close> puts into the buffer for a line typed.\<close>

definition buffered :: "string \<Rightarrow> string" where
  "buffered typed = take (INPUT_BUFFER_SIZE - 1) typed"

text \<open>The game after the dispatch of each of the lines, in order.\<close>

definition dispatch_all :: "GameState \<Rightarrow> string list \<Rightarrow> GameState" where
  "dispatch_all game typed_lines =
     foldl (\<lambda>g typed. parse_and_execute_command g (buffered typed)) game typed_lines"


section \<open>Example states and maps\<close>

text \<open>A game whose log holds \<^verbatim>\<open>MAX_LOG_MESSAGES\<close> messages.\<close>

definition full_log_game :: GameState where
  "full_log_game =
     \<lparr>current_room = Some 0, all_rooms = [new_room 0 ''A''], game_should_close = False,
      log_messages = [Some ''m0'', Some ''m1'', Some ''m2'', Some ''m3'', Some ''m4'',
                      Some ''m5'', Some ''m6'', Some ''m7'', Some ''m8'', Some ''m9''],
      log_count = 10\<rparr>"

text \<open>
  A map whose first line is a link between rooms that are declared after it.
\<close>

definition example_map :: string where
  \<open>example_map = ''link 1 s 0\<newline>room 0 "A"\<newline>room 1 "B"\<newline>link 0 n 1\<newline>''\<close>

definition example_world :: GameState where
  "example_world =
     \<lparr>current_room = None,
      all_rooms = [\<lparr>room_id = 0, description = ''A'', exits = [Some 1, None, None, None]\<rparr>,
                   \<lparr>room_id = 1, description = ''B'', exits = [None, Some 0, None, None]\<rparr>],
      game_should_close = False,
      log_messages = [None, None, None, None, None, None, None, None, None, None],
      log_count = 0\<rparr>"

text \<open>The game \<^verbatim>\<open>main\<close> hands to \<^verbatim>\<open>game_loop\<close> for this map.\<close>

definition example_game :: GameState where
  "example_game =
     \<lparr>current_room = Some 0,
      all_rooms = [\<lparr>room_id = 0, description = ''A'', exits = [Some 1, None, None, None]\<rparr>,
                   \<lparr>room_id = 1, description = ''B'', exits = [None, Some 0, None, None]\<rparr>],
      game_should_close = False,
      log_messages =
        [Some ''Welcome to the Awesome Text Adventure! Type 'help' for commands.'',
         Some ''A'', Some ''Exits: north '', None, None, None, None, None, None, None],
      log_count = 3\<rparr>"

text \<open>The rooms of the example map after the first pass, before any link.\<close>

definition example_declared :: GameState where
  "example_declared =
     \<lparr>current_room = None,
      all_rooms = [\<lparr>room_id = 0, description = ''A'', exits = [None, None, None, None]\<rparr>,
                   \<lparr>room_id = 1, description = ''B'', exits = [None, None, None, None]\<rparr>],
      game_should_close = False,
      log_messages = [None, None, None, None, None, None, None, None, None, None],
      log_count = 0\<rparr>"



text \<open>A map that links the south exit of room 0 twice, first to room 1 and then to room 2.\<close>

definition dup_links_map :: string where
  \<open>dup_links_map =
     ''room 0 "A"\<newline>room 1 "B"\<newline>room 2 "C"\<newline>link 0 s 1\<newline>link 0 s 2\<newline>link 1 n 0\<newline>''\<close>





text \<open>A map of 101 room lines, and a game whose room table is full.\<close>

definition big_map :: string where
  \<open>big_map = concat (replicate 101 ''room 1 "x"\<newline>'')\<close>

definition full_rooms_game :: GameState where
  "full_rooms_game = zeroed_game\<lparr>all_rooms := replicate 100 (new_room 1 ''x'')\<rparr>"




text \<open>A line of 96 spaces followed by \<^verbatim>\<open>quit\<close>: 100 characters.\<close>

definition late_quit :: string where
  "late_quit = replicate 96 CHR '' '' @ ''quit''"

text \<open>A line of 95 spaces followed by \<^verbatim>\<open>quitx\<close>: its first 99 characters end in \<^verbatim>\<open>quit\<close>.\<close>

definition cut_quit :: string where
  "cut_quit = replicate 95 CHR '' '' @ ''quitx''"

section \<open>The example map, loaded\<close>

lemma file_lines_example:
  \<open>file_lines example_map =
     [''link 1 s 0\<newline>'', ''room 0 "A"\<newline>'', ''room 1 "B"\<newline>'', ''link 0 n 1\<newline>'']\<close>
  by code_simp

lemma load_example: "load_world (Some example_map) = Returns (Some example_world)"
  by code_simp

lemma start_example: "start_game example_world = Some example_game"
  by code_simp

section \<open>Lemmas: the transcript log\<close>

lemma shift_up_length: "length (shift_up msgs i) = length msgs"
  by (induction msgs i rule: shift_up.induct) (subst shift_up.simps, simp)

lemma shift_up_nth:
  "length msgs = MAX_LOG_MESSAGES \<Longrightarrow> k < MAX_LOG_MESSAGES \<Longrightarrow>
   shift_up msgs i ! k = (if i \<le> k \<and> k < MAX_LOG_MESSAGES - 1 then msgs ! (k + 1) else msgs ! k)"
proof (induction msgs i arbitrary: k rule: shift_up.induct)
  case (1 msgs i)
  show ?case
  proof (cases "i < MAX_LOG_MESSAGES - 1")
    case True
    have "shift_up msgs i ! k = shift_up (msgs[i := msgs ! (i + 1)]) (i + 1) ! k"
      using True by (subst shift_up.simps) simp
    also have "\<dots> = (if i + 1 \<le> k \<and> k < MAX_LOG_MESSAGES - 1
                      then (msgs[i := msgs ! (i + 1)]) ! (k + 1)
                      else (msgs[i := msgs ! (i + 1)]) ! k)"
      using "1.IH" [OF True, of k] "1.prems" by simp
    also have "\<dots> = (if i \<le> k \<and> k < MAX_LOG_MESSAGES - 1 then msgs ! (k + 1) else msgs ! k)"
      using True "1.prems" by (auto simp: nth_list_update)
    finally show ?thesis .
  next
    case False
    then show ?thesis by (subst shift_up.simps) auto
  qed
qed

lemma take_shift_up:
  assumes "length msgs = MAX_LOG_MESSAGES"
  shows "take (MAX_LOG_MESSAGES - 1) (shift_up msgs 0) = tl msgs"
proof (rule nth_equalityI)
  show "length (take (MAX_LOG_MESSAGES - 1) (shift_up msgs 0)) = length (tl msgs)"
    using assms by (simp add: shift_up_length)
next
  fix k
  assume "k < length (take (MAX_LOG_MESSAGES - 1) (shift_up msgs 0))"
  then have k: "k < MAX_LOG_MESSAGES - 1"
    by simp
  then show "take (MAX_LOG_MESSAGES - 1) (shift_up msgs 0) ! k = tl msgs ! k"
    using assms by (simp add: shift_up_nth nth_tl)
qed

lemma transcript_ui_log:
  assumes "log_ok game"
  shows "transcript (ui_log game message) =
           (if log_count game = MAX_LOG_MESSAGES then tl (transcript game) else transcript game)
           @ [message]"
proof (cases "log_count game = MAX_LOG_MESSAGES")
  case True
  have len: "length (log_messages game) = MAX_LOG_MESSAGES"
    using assms by (simp add: log_ok_def)
  have pos: "0 < MAX_LOG_MESSAGES"
    by (simp add: MAX_LOG_MESSAGES_def)
  have "(shift_up (log_messages game) 0)[MAX_LOG_MESSAGES - 1 := Some message] =
          take (MAX_LOG_MESSAGES - 1) (shift_up (log_messages game) 0) @ [Some message]"
    using len pos by (simp add: upd_conv_take_nth_drop shift_up_length)
  then have "transcript (ui_log game message) =
          map the (take (MAX_LOG_MESSAGES - 1) (shift_up (log_messages game) 0)) @ [message]"
    using True len pos
    by (simp add: transcript_def ui_log_def Let_def shift_up_length)
  also have "\<dots> = tl (map the (log_messages game)) @ [message]"
    using take_shift_up [OF len] by (simp add: map_tl)
  finally show ?thesis
    using True len by (simp add: transcript_def)
next
  case False
  then have lt: "log_count game < length (log_messages game)"
    using assms by (simp add: log_ok_def)
  then show ?thesis
    using False assms
    by (simp add: transcript_def ui_log_def Let_def log_ok_def take_Suc_conv_app_nth)
qed

lemma log_ok_ui_log: "log_ok game \<Longrightarrow> log_ok (ui_log game message)"
  by (auto simp: log_ok_def ui_log_def Let_def shift_up_length MAX_LOG_MESSAGES_def)

section \<open>Lemmas: the loader\<close>

lemma direction_code_iff: "direction_code dir_str = Some d \<longleftrightarrow> dir_str = direction_letter d"
  by (cases d) (auto simp: direction_code_def)

lemma direction_code_None_iff:
  "direction_code dir_str = None \<longleftrightarrow> dir_str \<notin> {''n'', ''s'', ''e'', ''w''}"
  by (auto simp: direction_code_def)

lemma direction_letters_iff:
  "dir_str \<in> set direction_letters \<longleftrightarrow> direction_code dir_str \<noteq> None"
  by (auto simp: direction_letters_def direction_code_def)

lemma direction_letter_inj: "direction_letter d = direction_letter d' \<longleftrightarrow> d = d'"
  by (cases d; cases d') auto

lemma find_room_loop_None: "find_room_loop rs i rid = None \<longleftrightarrow> rid \<notin> set (map room_id rs)"
  by (induction rs arbitrary: i) auto

lemma find_room_loop_Some:
  "find_room_loop rs i rid = Some p \<Longrightarrow>
   i \<le> p \<and> p - i < length rs \<and> room_id (rs ! (p - i)) = rid \<and> (\<forall>q < p - i. room_id (rs ! q) \<noteq> rid)"
proof (induction rs arbitrary: i)
  case Nil
  then show ?case by simp
next
  case (Cons r rs)
  show ?case
  proof (cases "room_id r = rid")
    case True
    with Cons.prems show ?thesis by simp
  next
    case False
    with Cons.prems have rec: "find_room_loop rs (Suc i) rid = Some p" by simp
    from Cons.IH [OF rec] have ih: "Suc i \<le> p" "p - Suc i < length rs"
      "room_id (rs ! (p - Suc i)) = rid" "\<forall>q < p - Suc i. room_id (rs ! q) \<noteq> rid"
      by auto
    have eq: "p - i = Suc (p - Suc i)" using ih(1) by simp
    show ?thesis
      using ih False by (auto simp: eq nth_Cons split: nat.splits)
  qed
qed

lemma find_room_loop_ids:
  "map room_id rs = map room_id rs' \<Longrightarrow> find_room_loop rs i rid = find_room_loop rs' i rid"
proof (induction rs arbitrary: rs' i)
  case Nil
  then show ?case by simp
next
  case (Cons r rs)
  then obtain r' rs2 where "rs' = r' # rs2" by (cases rs') auto
  with Cons show ?case by auto
qed


lemma declared_rooms_Nil [simp]: "declared_rooms [] = []"
  by (simp add: declared_rooms_def)

lemma declared_rooms_Cons:
  "declared_rooms (l # ls) =
     (if is_room_line l
      then (case sscanf_room l of None \<Rightarrow> [] | Some (rid, desc) \<Rightarrow> [new_room rid desc])
           @ declared_rooms ls
      else declared_rooms ls)"
  by (simp add: declared_rooms_def)

lemma pass1_Some_iff:
  "num_rooms g \<le> MAX_ROOMS \<Longrightarrow>
   pass1 ls g = Some g' \<longleftrightarrow>
     (\<forall>l \<in> set ls. is_room_line l \<longrightarrow> sscanf_room l \<noteq> None) \<and>
     num_rooms g + length (filter is_room_line ls) \<le> MAX_ROOMS \<and>
     g' = g\<lparr>all_rooms := all_rooms g @ declared_rooms ls\<rparr>"
proof (induction ls arbitrary: g)
  case Nil
  then show ?case by auto
next
  case (Cons l ls)
  show ?case
  proof (cases "is_room_line l")
    case False
    with Cons show ?thesis by (simp add: declared_rooms_Cons)
  next
    case room: True
    show ?thesis
    proof (cases "sscanf_room l")
      case None
      with room show ?thesis by (auto simp: parse_room_def)
    next
      case (Some a)
      obtain rid desc where a: "a = (rid, desc)" by (cases a)
      show ?thesis
      proof (cases "num_rooms g \<ge> MAX_ROOMS")
        case True
        with room show ?thesis by (auto simp: parse_room_def)
      next
        case False
        let ?g1 = "g\<lparr>all_rooms := all_rooms g @ [new_room rid desc]\<rparr>"
        have p: "parse_room l g = Some ?g1"
          using False Some a by (simp add: parse_room_def)
        have n1: "num_rooms ?g1 = Suc (num_rooms g)"
          by (simp add: num_rooms_def)
        have "num_rooms ?g1 \<le> MAX_ROOMS"
          using False n1 by simp
        from Cons.IH [OF this, of ] show ?thesis
          using room p Some a n1 by (auto simp: declared_rooms_Cons)
      qed
    qed
  qed
qed

lemma map_room_id_set_exit [simp]: "map room_id (set_exit rooms i d j) = map room_id rooms"
proof (cases "i < length rooms")
  case True
  then have "(map room_id rooms)[i := room_id (rooms ! i)] = map room_id rooms"
    by (simp add: list_update_same_conv)
  then show ?thesis by (simp add: set_exit_def map_update)
next
  case False
  then show ?thesis by (simp add: set_exit_def list_update_beyond)
qed

lemma length_set_exit [simp]: "length (set_exit rooms i d j) = length rooms"
  by (simp add: set_exit_def)

lemma link_edge_ids:
  "map room_id rs = map room_id rs' \<Longrightarrow> link_edge rs l = link_edge rs' l"
  using find_room_loop_ids [of rs rs']
  by (auto simp: link_edge_def split: option.splits outcome.splits)

lemma parse_link_edge:
  "parse_link line g =
     (case sscanf_link line of
        Overrun \<Rightarrow> Overrun
      | Returns r \<Rightarrow>
          Returns (case link_edge (all_rooms g) line of
                     None \<Rightarrow> None
                   | Some e \<Rightarrow> Some (g\<lparr>all_rooms := connect (all_rooms g) e\<rparr>)))"
  by (simp add: parse_link_def link_edge_def find_room_by_id_def connect_def
           split: option.splits prod.splits outcome.splits)

lemma link_edge_no_overrun: "link_edge rooms line = Some e \<Longrightarrow> sscanf_link line \<noteq> Overrun"
  by (auto simp: link_edge_def split: outcome.splits)

lemma parse_link_Some_iff:
  "parse_link line g = Returns (Some g') \<longleftrightarrow>
     (\<exists>e. link_edge (all_rooms g) line = Some e \<and>
          g' = g\<lparr>all_rooms := connect (all_rooms g) e\<rparr>)"
  using link_edge_no_overrun [of "all_rooms g" line]
  by (auto simp: parse_link_edge split: outcome.splits option.splits)



lemma link_edges_Nil [simp]: "link_edges rs [] = []"
  by (simp add: link_edges_def)

lemma link_edges_Cons:
  "link_edges rs (l # ls) =
     (if is_link_line l
      then (case link_edge rs l of None \<Rightarrow> [] | Some e \<Rightarrow> [e]) @ link_edges rs ls
      else link_edges rs ls)"
  by (simp add: link_edges_def)

lemma link_edges_ids:
  "map room_id rs = map room_id rs' \<Longrightarrow> link_edges rs ls = link_edges rs' ls"
  using link_edge_ids [of rs rs'] by (simp add: link_edges_def)

lemma map_room_id_connect [simp]: "map room_id (connect rooms e) = map room_id rooms"
  by (cases e) (simp add: connect_def)

lemma pass2_Some_iff:
  "pass2 ls g = Returns (Some g') \<longleftrightarrow>
     (\<forall>l \<in> set ls. is_link_line l \<longrightarrow> link_edge (all_rooms g) l \<noteq> None) \<and>
     g' = g\<lparr>all_rooms := foldl connect (all_rooms g) (link_edges (all_rooms g) ls)\<rparr>"
proof (induction ls arbitrary: g)
  case Nil
  then show ?case by auto
next
  case (Cons l ls)
  show ?case
  proof (cases "is_link_line l")
    case False
    with Cons show ?thesis by (simp add: link_edges_Cons)
  next
    case link: True
    show ?thesis
    proof (cases "link_edge (all_rooms g) l")
      case None
      then have "\<And>x. parse_link l g \<noteq> Returns (Some x)"
        by (simp add: parse_link_Some_iff)
      with link None show ?thesis
        by (auto split: outcome.splits option.splits)
    next
      case (Some e)
      let ?g1 = "g\<lparr>all_rooms := connect (all_rooms g) e\<rparr>"
      have p: "parse_link l g = Returns (Some ?g1)"
        using Some by (simp add: parse_link_Some_iff)
      have ids: "map room_id (all_rooms ?g1) = map room_id (all_rooms g)"
        by simp
      have e1: "\<And>l'. link_edge (all_rooms ?g1) l' = link_edge (all_rooms g) l'"
        using link_edge_ids [OF ids] .
      have e2: "link_edges (all_rooms ?g1) ls = link_edges (all_rooms g) ls"
        using link_edges_ids [OF ids] .
      show ?thesis
        using link Some Cons.IH [of ?g1] e1 e2 p
        by (cases e) (simp add: link_edges_Cons)
    qed
  qed
qed


lemma dir_index_inj: "dir_index d = dir_index d' \<longleftrightarrow> d = d'"
  by (cases d; cases d') auto

lemma dir_index_less: "dir_index d < MAX_DIRECTIONS"
  by (cases d) (auto simp: MAX_DIRECTIONS_def)

lemma room_exit_set_exit_other:
  "k \<noteq> i \<or> d' \<noteq> d \<Longrightarrow> room_exit (set_exit rooms i d j) k d' = room_exit rooms k d'"
  by (cases "i < length rooms")
     (auto simp: room_exit_def set_exit_def nth_list_update dir_index_inj list_update_beyond)

lemma room_exit_set_exit_same:
  "i < length rooms \<Longrightarrow> length (exits (rooms ! i)) = MAX_DIRECTIONS \<Longrightarrow>
   room_exit (set_exit rooms i d j) i d = Some j"
  using dir_index_less [of d] by (simp add: room_exit_def set_exit_def)

lemma exits_ok_set_exit: "exits_ok rooms \<Longrightarrow> exits_ok (set_exit rooms i d j)"
proof -
  assume ok: "exits_ok rooms"
  show ?thesis
    unfolding exits_ok_def
  proof
    fix r
    assume "r \<in> set (set_exit rooms i d j)"
    then obtain k where k: "k < length rooms" "r = set_exit rooms i d j ! k"
      by (auto simp: in_set_conv_nth)
    have "length (exits (rooms ! k)) = MAX_DIRECTIONS"
      using ok k(1) by (simp add: exits_ok_def)
    then show "length (exits r) = MAX_DIRECTIONS"
      using k by (cases "k = i") (simp_all add: set_exit_def)
  qed
qed

lemma connect_triple: "connect rooms (i, d, j) = set_exit rooms i d j"
  by (simp add: connect_def)

lemma exits_ok_connect: "exits_ok rooms \<Longrightarrow> exits_ok (connect rooms e)"
  by (cases e) (simp add: connect_def exits_ok_set_exit)

lemma length_connect [simp]: "length (connect rooms e) = length rooms"
  by (cases e) (simp add: connect_def)

lemma exits_ok_foldl_connect: "exits_ok rooms \<Longrightarrow> exits_ok (foldl connect rooms es)"
  by (induction es arbitrary: rooms) (auto simp: exits_ok_connect)

lemma length_foldl_connect [simp]: "length (foldl connect rooms es) = length rooms"
  by (induction es arbitrary: rooms) auto

lemma map_room_id_foldl_connect [simp]:
  "map room_id (foldl connect rooms es) = map room_id rooms"
  by (induction es arbitrary: rooms) auto

lemma room_exit_foldl_connect:
  assumes "exits_ok rooms" and "\<forall>e \<in> set es. fst e < length rooms"
  shows "room_exit (foldl connect rooms es) k d =
           (case last_edge es k d of None \<Rightarrow> room_exit rooms k d | Some j \<Rightarrow> Some j)"
  using assms(2)
proof (induction es rule: rev_induct)
  case Nil
  then show ?case by (simp add: last_edge_def)
next
  case (snoc e es)
  obtain i d' j where e: "e = (i, d', j)" by (cases e)
  let ?rs = "foldl connect rooms es"
  have ih: "room_exit ?rs k d =
              (case last_edge es k d of None \<Rightarrow> room_exit rooms k d | Some j \<Rightarrow> Some j)"
    using snoc by simp
  have i: "i < length ?rs"
    using snoc.prems e by simp
  have "exits_ok ?rs"
    using assms(1) by (rule exits_ok_foldl_connect)
  then have len: "length (exits (?rs ! i)) = MAX_DIRECTIONS"
    using i by (simp add: exits_ok_def)
  show ?case
  proof (cases "i = k \<and> d' = d")
    case True
    then show ?thesis
      using room_exit_set_exit_same [OF i len, of d j] e
      by (simp add: connect_triple last_edge_def)
  next
    case False
    then have "room_exit (set_exit ?rs i d' j) k d = room_exit ?rs k d"
      by (intro room_exit_set_exit_other) auto
    then show ?thesis
      using False e ih by (auto simp: connect_triple last_edge_def)
  qed
qed

lemma link_edge_Some_iff:
  "link_edge rooms l \<noteq> None \<longleftrightarrow> link_declared (map room_id rooms) l"
proof (cases "sscanf_link l")
  case Overrun
  then show ?thesis by (simp add: link_edge_def link_declared_def)
next
  case (Returns r)
  show ?thesis
  proof (cases r)
    case None
    with Returns show ?thesis by (simp add: link_edge_def link_declared_def)
  next
    case (Some a)
    obtain f ds t where a: "a = (f, ds, t)" by (cases a)
    have f: "find_room_loop rooms 0 f = None \<longleftrightarrow> f \<notin> set (map room_id rooms)"
      by (rule find_room_loop_None)
    have t: "find_room_loop rooms 0 t = None \<longleftrightarrow> t \<notin> set (map room_id rooms)"
      by (rule find_room_loop_None)
    show ?thesis
      using Returns Some a f t direction_letters_iff [of ds]
      by (cases "find_room_loop rooms 0 f"; cases "find_room_loop rooms 0 t";
          cases "direction_code ds")
         (simp_all add: link_edge_def link_declared_def)
  qed
qed

lemma pass1_zeroed:
  "pass1 (file_lines file) zeroed_game = Some g1 \<longleftrightarrow>
     (\<forall>l \<in> set (file_lines file). is_room_line l \<longrightarrow> sscanf_room l \<noteq> None) \<and>
     length (filter is_room_line (file_lines file)) \<le> MAX_ROOMS \<and>
     g1 = zeroed_game\<lparr>all_rooms := declared_rooms (file_lines file)\<rparr>"
proof -
  have z: "num_rooms zeroed_game \<le> MAX_ROOMS" "all_rooms zeroed_game = []"
    by (simp_all add: num_rooms_def zeroed_game_def)
  show ?thesis
    using pass1_Some_iff [OF z(1), of "file_lines file" g1] z(2) by (simp add: num_rooms_def)
qed

lemma load_world_pass1_fails:
  assumes "\<not> ((\<forall>l \<in> set (file_lines file). is_room_line l \<longrightarrow> sscanf_room l \<noteq> None) \<and>
               length (filter is_room_line (file_lines file)) \<le> MAX_ROOMS)"
  shows "load_world (Some file) = Returns None"
proof -
  have "pass1 (file_lines file) zeroed_game = None"
    using assms pass1_zeroed [of "file"] by (cases "pass1 (file_lines file) zeroed_game") auto
  then show ?thesis
    by (simp add: load_world_def)
qed

lemma load_world_pass2:
  assumes "(\<forall>l \<in> set (file_lines file). is_room_line l \<longrightarrow> sscanf_room l \<noteq> None)"
    and "length (filter is_room_line (file_lines file)) \<le> MAX_ROOMS"
  shows "load_world (Some file) =
           pass2 (file_lines file) (zeroed_game\<lparr>all_rooms := declared_rooms (file_lines file)\<rparr>)"
proof -
  have "pass1 (file_lines file) zeroed_game =
          Some (zeroed_game\<lparr>all_rooms := declared_rooms (file_lines file)\<rparr>)"
    using assms by (simp add: pass1_zeroed)
  then show ?thesis
    by (simp add: load_world_def)
qed

lemma load_world_Some_iff:
  "load_world (Some file) = Returns (Some g) \<longleftrightarrow>
     lines_valid (file_lines file) \<and>
     g = zeroed_game\<lparr>all_rooms := loaded_rooms (file_lines file)\<rparr>"
proof -
  let ?ls = "file_lines file"
  let ?g1 = "zeroed_game\<lparr>all_rooms := declared_rooms ?ls\<rparr>"
  have p2: "pass2 ?ls ?g1 = Returns (Some g) \<longleftrightarrow>
      (\<forall>l \<in> set ?ls. is_link_line l \<longrightarrow> link_declared (declared_ids ?ls) l) \<and>
      g = zeroed_game\<lparr>all_rooms := loaded_rooms ?ls\<rparr>"
    unfolding pass2_Some_iff link_edge_Some_iff declared_ids_def loaded_rooms_def by simp
  show ?thesis
  proof (cases "(\<forall>l \<in> set ?ls. is_room_line l \<longrightarrow> sscanf_room l \<noteq> None) \<and>
                length (filter is_room_line ?ls) \<le> MAX_ROOMS")
    case False
    then have "load_world (Some file) = Returns None"
      by (rule load_world_pass1_fails)
    with False show ?thesis
      by (auto simp: lines_valid_def)
  next
    case True
    then have "load_world (Some file) = pass2 ?ls ?g1"
      by (simp add: load_world_pass2)
    with True p2 show ?thesis
      by (simp add: lines_valid_def)
  qed
qed

lemma exits_ok_declared_rooms: "exits_ok (declared_rooms ls)"
  by (auto simp: exits_ok_def declared_rooms_def new_room_def split: option.splits)

lemma link_edge_bound:
  "link_edge rooms l = Some (i, d, j) \<Longrightarrow> i < length rooms \<and> j < length rooms"
  by (auto simp: link_edge_def split: option.splits outcome.splits dest!: find_room_loop_Some)

lemma link_edges_bound:
  "e \<in> set (link_edges rooms ls) \<Longrightarrow> fst e < length rooms \<and> snd (snd e) < length rooms"
  by (cases e) (auto simp: link_edges_def split: option.splits dest: link_edge_bound [OF sym])

lemma room_exit_loaded:
  assumes "k < length (declared_rooms ls)"
  shows "room_exit (loaded_rooms ls) k d = last_edge (link_edges (declared_rooms ls) ls) k d"
proof -
  have none: "room_exit (declared_rooms ls) k d = None"
  proof -
    have "declared_rooms ls ! k \<in> set (declared_rooms ls)"
      using assms by simp
    then have "exits (declared_rooms ls ! k) = replicate MAX_DIRECTIONS None"
      by (auto simp: declared_rooms_def new_room_def split: option.splits)
    then show ?thesis
      using dir_index_less [of d] by (simp add: room_exit_def)
  qed
  have bound: "\<forall>e \<in> set (link_edges (declared_rooms ls) ls). fst e < length (declared_rooms ls)"
    using link_edges_bound by blast
  show ?thesis
    using room_exit_foldl_connect [OF exits_ok_declared_rooms bound, of k d] none
    by (simp add: loaded_rooms_def split: option.splits)
qed

lemma link_edges_append:
  "link_edges rs (xs @ ys) = link_edges rs xs @ link_edges rs ys"
  by (simp add: link_edges_def)

lemma find_append:
  "find P (xs @ ys) = (case find P xs of None \<Rightarrow> find P ys | Some x \<Rightarrow> Some x)"
  by (induction xs) auto

lemma last_edge_append_single:
  assumes "\<forall>e \<in> set es2. \<not> (fst e = i \<and> fst (snd e) = d)"
  shows "last_edge (es1 @ (i, d, j) # es2) i d = Some j"
proof -
  have "find (\<lambda>e. fst e = i \<and> fst (snd e) = d) (rev es2) = None"
    using assms unfolding find_None_iff set_rev by blast
  then show ?thesis
    by (simp add: last_edge_def find_append)
qed

lemma find_SomeD: "find P xs = Some x \<Longrightarrow> x \<in> set xs \<and> P x"
  by (induction xs) (auto split: if_splits)

lemma last_edge_Some:
  assumes "last_edge es k d = Some j"
  shows "(k, d, j) \<in> set es"
proof -
  from assms obtain e where e: "find (\<lambda>e. fst e = k \<and> fst (snd e) = d) (rev es) = Some e"
    and j: "snd (snd e) = j"
    by (auto simp: last_edge_def)
  from find_SomeD [OF e] have "e \<in> set es" "fst e = k" "fst (snd e) = d"
    by auto
  with j show ?thesis by (cases e) auto
qed

lemma link_edge_SomeD:
  assumes "link_edge rs l = Some (i, d, j)"
  shows "\<exists>f ds t. sscanf_link l = Returns (Some (f, ds, t)) \<and> find_room_loop rs 0 f = Some i
           \<and> find_room_loop rs 0 t = Some j \<and> direction_code ds = Some d"
  using assms by (auto simp: link_edge_def split: option.splits outcome.splits)

lemma link_edges_mem:
  "e \<in> set (link_edges rs ls) \<longleftrightarrow> (\<exists>l \<in> set ls. is_link_line l \<and> link_edge rs l = Some e)"
proof (induction ls)
  case Nil
  then show ?case by simp
next
  case (Cons a ls)
  then show ?case
    by (cases e; cases "link_edge rs a") (auto simp: link_edges_Cons)
qed

lemma find_room_by_id_loaded:
  "all_rooms g = loaded_rooms ls \<Longrightarrow>
   find_room_by_id g rid = find_room_loop (declared_rooms ls) 0 rid"
  using find_room_loop_ids [of "loaded_rooms ls" "declared_rooms ls" 0 rid]
  by (simp add: find_room_by_id_def loaded_rooms_def)

lemma load_world_last_link:
  assumes valid: "lines_valid (file_lines file)"
    and split: "file_lines file = pre @ l # post"
    and l: "is_link_line l"
           "sscanf_link l = Returns (Some (from_id, direction_letter d, to_id))"
    and last: "\<forall>l' \<in> set post. is_link_line l' \<longrightarrow> \<not> link_slot l' from_id d"
  shows "\<exists>g i j. load_world (Some file) = Returns (Some g)
           \<and> find_room_by_id g from_id = Some i \<and> find_room_by_id g to_id = Some j
           \<and> room_exit (all_rooms g) i d = Some j"
proof -
  let ?ls = "file_lines file"
  let ?rs = "declared_rooms ?ls"
  let ?g = "zeroed_game\<lparr>all_rooms := loaded_rooms ?ls\<rparr>"
  have load: "load_world (Some file) = Returns (Some ?g)"
    using valid by (simp add: load_world_Some_iff)
  have mem: "l \<in> set ?ls"
    using split by simp
  then have "link_declared (declared_ids ?ls) l"
    using valid l(1) by (simp add: lines_valid_def)
  then have "link_edge ?rs l \<noteq> None"
    using link_edge_Some_iff [of ?rs l] by (simp add: declared_ids_def)
  then obtain i d' j where e: "link_edge ?rs l = Some (i, d', j)"
    by (cases "link_edge ?rs l") auto
  from link_edge_SomeD [OF e] l have
    fi: "find_room_loop ?rs 0 from_id = Some i" and
    fj: "find_room_loop ?rs 0 to_id = Some j" and d': "d' = d"
    by (auto simp: direction_code_iff direction_letter_inj)
  have i: "i < length ?rs"
    using link_edge_bound [OF e] by simp
  have idi: "room_id (?rs ! i) = from_id"
    using find_room_loop_Some [OF fi] by simp
  have es: "link_edges ?rs ?ls = link_edges ?rs pre @ (i, d, j) # link_edges ?rs post"
    using split l(1) e d' by (simp add: link_edges_append link_edges_Cons)
  have none: "\<forall>e' \<in> set (link_edges ?rs post). \<not> (fst e' = i \<and> fst (snd e') = d)"
  proof (intro ballI notI)
    fix e'
    assume e': "e' \<in> set (link_edges ?rs post)" and same: "fst e' = i \<and> fst (snd e') = d"
    obtain j' where e'eq: "e' = (i, d, j')"
      using same by (cases e') auto
    from e' obtain l' where l': "l' \<in> set post" "is_link_line l'" "link_edge ?rs l' = Some e'"
      by (auto simp: link_edges_mem)
    from link_edge_SomeD [OF l'(3) [unfolded e'eq]] obtain f' ds' t' where
      s': "sscanf_link l' = Returns (Some (f', ds', t'))" "find_room_loop ?rs 0 f' = Some i"
          "direction_code ds' = Some d"
      by auto
    have "room_id (?rs ! i) = f'"
      using find_room_loop_Some [OF s'(2)] by simp
    with idi have "f' = from_id" by simp
    with s' have "link_slot l' from_id d"
      by (simp add: link_slot_def direction_code_iff)
    with last l' show False by blast
  qed
  have "room_exit (loaded_rooms ?ls) i d = Some j"
    using room_exit_loaded [OF i, of d] es last_edge_append_single [OF none, of "link_edges ?rs pre" j]
    by simp
  moreover have "find_room_by_id ?g from_id = Some i" "find_room_by_id ?g to_id = Some j"
    using fi fj by (simp_all add: find_room_by_id_loaded [of ?g ?ls])
  ultimately show ?thesis
    using load by auto
qed

section \<open>Lemmas: command handling and the game loop\<close>

lemma go_direction_iff:
  "go_direction arg = Some d \<longleftrightarrow> arg = direction_letter d \<or> arg = direction_to_string d"
  by (cases d) (auto simp: go_direction_def)

lemma go_direction_None_iff:
  "go_direction arg = None \<longleftrightarrow>
     arg \<notin> {''n'', ''north'', ''s'', ''south'', ''e'', ''east'', ''w'', ''west''}"
  by (auto simp: go_direction_def)

lemma ui_log_frame [simp]:
  "current_room (ui_log g m) = current_room g"
  "all_rooms (ui_log g m) = all_rooms g"
  "game_should_close (ui_log g m) = game_should_close g"
  by (simp_all add: ui_log_def Let_def)

lemma num_rooms_ui_log [simp]: "num_rooms (ui_log g m) = num_rooms g"
  by (simp add: num_rooms_def)

lemma handle_look_eq:
  "handle_look g a =
     ui_log (ui_log g (description (all_rooms g ! the (current_room g))))
            (exits_line (all_rooms g ! the (current_room g)))"
  by (simp add: handle_look_def exits_line_def Let_def split: prod.splits)

lemma handle_look_frame [simp]:
  "current_room (handle_look g a) = current_room g"
  "all_rooms (handle_look g a) = all_rooms g"
  "game_should_close (handle_look g a) = game_should_close g"
  by (simp_all add: handle_look_eq)

lemma handle_help_frame [simp]:
  "current_room (handle_help g a) = current_room g"
  "all_rooms (handle_help g a) = all_rooms g"
  "game_should_close (handle_help g a) = game_should_close g"
  by (simp_all add: handle_help_def Let_def)

lemma handle_go_frame [simp]:
  "all_rooms (handle_go g a) = all_rooms g"
  "game_should_close (handle_go g a) = game_should_close g"
  by (simp_all add: handle_go_def split: option.splits)

lemma transcript_ui_log_appended:
  "log_ok g \<Longrightarrow> transcript (ui_log g m) = appended (transcript g) m"
  using transcript_ui_log [of g m] by (simp add: appended_def transcript_def log_ok_def)

lemma log_ok_handle_look: "log_ok g \<Longrightarrow> log_ok (handle_look g a)"
  by (simp add: handle_look_eq log_ok_ui_log)

lemma log_ok_current_room [simp]: "log_ok (g\<lparr>current_room := r\<rparr>) = log_ok g"
  by (simp add: log_ok_def)

lemma transcript_current_room [simp]: "transcript (g\<lparr>current_room := r\<rparr>) = transcript g"
  by (simp add: transcript_def)

lemma lookup_command_table:
  "lookup_command verb command_table =
     (if verb = ''quit'' \<or> verb = ''exit'' then Some handle_quit
      else if verb = ''look'' \<or> verb = ''l'' then Some handle_look
      else if verb = ''go'' \<or> is_direction_word verb then Some handle_go
      else if verb = ''help'' then Some handle_help
      else None)"
  by (simp add: command_table_def is_direction_word_def)

lemma not_direction_go [simp]: "\<not> is_direction_word ''go''"
  by (simp add: is_direction_word_def)

lemma direction_word_not_quit:
  "is_direction_word v \<Longrightarrow> v \<noteq> ''quit'' \<and> v \<noteq> ''exit''"
  by (auto simp: is_direction_word_def)

lemma dispatch_close:
  "game_should_close (parse_and_execute_command g input) \<longleftrightarrow>
     game_should_close g \<or> is_quit_command input"
proof (cases "strtok (map tolower input)")
  case None
  then show ?thesis
    by (simp add: parse_and_execute_command_def is_quit_command_def)
next
  case (Some a)
  obtain verb rest where a: "a = (verb, rest)" by (cases a)
  show ?thesis
  proof (cases "is_direction_word verb")
    case True
    then show ?thesis
      using Some a direction_word_not_quit [OF True]
      by (simp add: parse_and_execute_command_def is_quit_command_def lookup_command_table)
  next
    case False
    then show ?thesis
      using Some a
      by (simp add: parse_and_execute_command_def is_quit_command_def lookup_command_table
                    handle_quit_def Let_def)
  qed
qed

lemma dispatch_rooms [simp]: "all_rooms (parse_and_execute_command g input) = all_rooms g"
  by (simp add: parse_and_execute_command_def lookup_command_table handle_quit_def Let_def
           split: option.splits prod.splits)

lemma dispatch_empty [simp]: "parse_and_execute_command g [] = g"
  by (simp add: parse_and_execute_command_def strtok_def)

lemma game_loop_closed:
  "game_should_close g \<Longrightarrow> game_loop g pending = Some (g, pending)"
  by (subst game_loop.simps) simp

lemma game_loop_step:
  "\<not> game_should_close g \<Longrightarrow>
   game_loop g (typed # rest) = game_loop (parse_and_execute_command g (buffered typed)) rest"
  by (subst game_loop.simps) (simp add: ui_get_input_def buffered_def)

lemma game_loop_returns_closed:
  assumes "game_loop g pending = Some y"
  shows "pending = [] \<longrightarrow> game_should_close g"
proof (rule game_loop.raw_induct
         [where P = "\<lambda>g pending y. pending = [] \<longrightarrow> game_should_close g", OF _ assms])
  fix loop :: "GameState \<Rightarrow> string list \<Rightarrow> (GameState \<times> string list) option"
    and g pending y
  assume ih: "\<And>g pending y. loop g pending = Some y \<Longrightarrow> pending = [] \<longrightarrow> game_should_close g"
    and body: "(if game_should_close g then Some (g, pending)
                else (case ui_get_input pending of
                        (input_buffer, rest) \<Rightarrow>
                          loop (parse_and_execute_command g input_buffer) rest)) = Some y"
  show "pending = [] \<longrightarrow> game_should_close g"
  proof (intro impI, rule ccontr)
    assume empty: "pending = []" and running: "\<not> game_should_close g"
    with body have "loop g [] = Some y"
      by (simp add: ui_get_input_def)
    from ih [OF this] running show False
      by simp
  qed
qed

lemma game_loop_exhausted:
  "\<not> game_should_close g \<Longrightarrow> game_loop g [] = None"
  using game_loop_returns_closed [of g "[]"] by (cases "game_loop g []") auto

lemma dispatch_all_Nil [simp]: "dispatch_all g [] = g"
  by (simp add: dispatch_all_def)

lemma dispatch_all_Cons [simp]:
  "dispatch_all g (typed # rest) =
     dispatch_all (parse_and_execute_command g (buffered typed)) rest"
  by (simp add: dispatch_all_def)

lemma dispatch_all_append:
  "dispatch_all g (xs @ ys) = dispatch_all (dispatch_all g xs) ys"
  by (simp add: dispatch_all_def)

lemma game_loop_no_quit:
  "\<not> game_should_close g \<Longrightarrow> \<forall>l \<in> set pending. \<not> is_quit_command (buffered l) \<Longrightarrow>
   game_loop g pending = None"
proof (induction pending arbitrary: g)
  case Nil
  then show ?case by (simp add: game_loop_exhausted)
next
  case (Cons typed rest)
  have "\<not> game_should_close (parse_and_execute_command g (buffered typed))"
    using Cons.prems by (simp add: dispatch_close)
  then show ?case
    using Cons by (simp add: game_loop_step)
qed

lemma game_loop_first_quit:
  "\<not> game_should_close g \<Longrightarrow> \<forall>l \<in> set before. \<not> is_quit_command (buffered l) \<Longrightarrow>
   is_quit_command (buffered q) \<Longrightarrow>
   game_loop g (before @ q # after) = Some (dispatch_all g (before @ [q]), after)"
proof (induction before arbitrary: g)
  case Nil
  have "game_should_close (parse_and_execute_command g (buffered q))"
    using Nil by (simp add: dispatch_close)
  then show ?case
    using Nil by (simp add: game_loop_step game_loop_closed)
next
  case (Cons typed rest)
  have "\<not> game_should_close (parse_and_execute_command g (buffered typed))"
    using Cons.prems by (simp add: dispatch_close)
  then show ?case
    using Cons by (simp add: game_loop_step)
qed

lemma transcript_ui_log_twice:
  assumes "log_ok g"
  shows "transcript (ui_log (ui_log g a) b) =
           drop (length (transcript g) + 2 - MAX_LOG_MESSAGES) (transcript g) @ [a, b]"
proof -
  have len: "length (transcript g) \<le> MAX_LOG_MESSAGES"
    using assms by (simp add: transcript_def log_ok_def)
  have t1: "transcript (ui_log g a) = appended (transcript g) a"
    using assms by (rule transcript_ui_log_appended)
  have t2: "transcript (ui_log (ui_log g a) b) = appended (appended (transcript g) a) b"
    using log_ok_ui_log [OF assms] t1 by (simp add: transcript_ui_log_appended)
  have tl2: "\<And>xs :: string list. xs \<noteq> [] \<Longrightarrow> tl (xs @ [a]) = tl xs @ [a]"
    by simp
  consider "length (transcript g) = MAX_LOG_MESSAGES"
    | "Suc (length (transcript g)) = MAX_LOG_MESSAGES"
    | "Suc (length (transcript g)) < MAX_LOG_MESSAGES"
    using len by linarith
  then show ?thesis
  proof cases
    case 1
    then have "tl (transcript g) \<noteq> []"
      by (cases "transcript g") (auto simp: MAX_LOG_MESSAGES_def)
    then show ?thesis
      using 1 unfolding t2 appended_def
      by (simp add: MAX_LOG_MESSAGES_def drop_Suc numeral_2_eq_2)
  next
    case 2
    then have "transcript g \<noteq> []"
      by (auto simp: MAX_LOG_MESSAGES_def)
    then show ?thesis
      using 2 unfolding t2 appended_def
      by (simp add: MAX_LOG_MESSAGES_def drop_Suc)
  next
    case 3
    then show ?thesis
      unfolding t2 appended_def by simp
  qed
qed

section \<open>Lemmas: the games the handlers run on\<close>

lemma exits_resolve_set_exit:
  assumes "exits_resolve rooms" and "j < length rooms"
  shows "exits_resolve (set_exit rooms i d j)"
  unfolding exits_resolve_def
proof (intro ballI)
  fix r e
  assume r: "r \<in> set (set_exit rooms i d j)" and e: "e \<in> set (exits r)"
  from r obtain k where k: "k < length rooms" "r = set_exit rooms i d j ! k"
    by (auto simp: in_set_conv_nth)
  have old: "\<forall>e \<in> set (exits (rooms ! k)). case e of None \<Rightarrow> True | Some t \<Rightarrow> t < length rooms"
    using assms(1) nth_mem [OF k(1)] unfolding exits_resolve_def by blast
  show "case e of None \<Rightarrow> True | Some t \<Rightarrow> t < length (set_exit rooms i d j)"
  proof (cases "k = i")
    case False
    with k e old show ?thesis by (auto simp: set_exit_def split: option.splits)
  next
    case True
    with k e have "e \<in> set ((exits (rooms ! i))[dir_index d := Some j])"
      by (simp add: set_exit_def)
    then have "e = Some j \<or> e \<in> set (exits (rooms ! i))"
      using set_update_subset_insert [of "exits (rooms ! i)" "dir_index d" "Some j"] by auto
    with old True assms(2) show ?thesis by (auto split: option.splits)
  qed
qed

lemma exits_resolve_foldl_connect:
  "exits_resolve rooms \<Longrightarrow> \<forall>e \<in> set es. snd (snd e) < length rooms \<Longrightarrow>
   exits_resolve (foldl connect rooms es)"
proof (induction es arbitrary: rooms)
  case Nil
  then show ?case by simp
next
  case (Cons e es)
  obtain i d j where e: "e = (i, d, j)" by (cases e)
  have "exits_resolve (connect rooms e)"
    using Cons.prems e by (simp add: connect_triple exits_resolve_set_exit)
  moreover have "\<forall>e' \<in> set es. snd (snd e') < length (connect rooms e)"
    using Cons.prems by simp
  ultimately show ?case
    using Cons.IH [of "connect rooms e"] by simp
qed

lemma exits_resolve_declared_rooms: "exits_resolve (declared_rooms ls)"
  by (auto simp: exits_resolve_def declared_rooms_def new_room_def split: option.splits)

lemma loaded_rooms_ok:
  "exits_ok (loaded_rooms ls) \<and> exits_resolve (loaded_rooms ls)"
proof -
  have "\<forall>e \<in> set (link_edges (declared_rooms ls) ls). snd (snd e) < length (declared_rooms ls)"
    using link_edges_bound by blast
  then show ?thesis
    unfolding loaded_rooms_def
    by (simp add: exits_ok_foldl_connect exits_ok_declared_rooms
                  exits_resolve_foldl_connect exits_resolve_declared_rooms)
qed

lemma log_ok_zeroed: "log_ok zeroed_game"
  by (simp add: log_ok_def zeroed_game_def MAX_LOG_MESSAGES_def)

lemma game_ok_start:
  assumes "load_world (Some file) = Returns (Some g)" and "start_game g = Some g'"
  shows "game_ok g'"
proof -
  from assms(1) have g: "g = zeroed_game\<lparr>all_rooms := loaded_rooms (file_lines file)\<rparr>"
    by (simp add: load_world_Some_iff)
  from assms(2) obtain start where start: "find_room_by_id g 0 = Some start"
    and g': "g' = handle_look
                   (ui_log (g\<lparr>current_room := Some start\<rparr>)
                      ''Welcome to the Awesome Text Adventure! Type 'help' for commands.'')
                   None"
    by (auto simp: start_game_def split: option.splits)
  have "start < num_rooms g"
    using find_room_loop_Some [of "all_rooms g" 0 0 start] start
    by (simp add: find_room_by_id_def num_rooms_def)
  moreover have "log_ok g"
    using log_ok_zeroed by (simp add: g log_ok_def)
  ultimately show ?thesis
    using loaded_rooms_ok [of "file_lines file"]
    by (simp add: game_ok_def g' g log_ok_handle_look log_ok_ui_log num_rooms_def)
qed

lemma game_ok_ui_log: "game_ok g \<Longrightarrow> game_ok (ui_log g m)"
  by (auto simp: game_ok_def log_ok_ui_log split: option.splits)

lemma game_ok_handle_look: "game_ok g \<Longrightarrow> game_ok (handle_look g a)"
  by (simp add: handle_look_eq game_ok_ui_log)

lemma game_ok_next_room:
  assumes "game_ok g" and "current_room g = Some here"
    and "exits (all_rooms g ! here) ! dir_index dir = Some next_room"
  shows "next_room < num_rooms g"
proof -
  have here: "here < length (all_rooms g)"
    using assms(1,2) by (simp add: game_ok_def num_rooms_def)
  then have r: "all_rooms g ! here \<in> set (all_rooms g)"
    by simp
  then have "length (exits (all_rooms g ! here)) = MAX_DIRECTIONS"
    using assms(1) by (simp add: game_ok_def exits_ok_def)
  then have "exits (all_rooms g ! here) ! dir_index dir \<in> set (exits (all_rooms g ! here))"
    using dir_index_less [of dir] by simp
  with assms(3) have "Some next_room \<in> set (exits (all_rooms g ! here))"
    by simp
  with r assms(1) show ?thesis
    by (fastforce simp: game_ok_def exits_resolve_def num_rooms_def)
qed

lemma game_ok_move:
  "game_ok g \<Longrightarrow> next_room < num_rooms g \<Longrightarrow> game_ok (g\<lparr>current_room := Some next_room\<rparr>)"
  by (simp add: game_ok_def num_rooms_def)

lemma game_ok_handle_go: "game_ok g \<Longrightarrow> game_ok (handle_go g a)"
proof -
  assume ok: "game_ok g"
  then obtain here where here: "current_room g = Some here"
    by (auto simp: game_ok_def split: option.splits)
  show ?thesis
    using ok here game_ok_next_room [OF ok here]
    by (auto simp: handle_go_def game_ok_ui_log game_ok_handle_look game_ok_move
             split: option.splits)
qed

lemma game_ok_handle_help: "game_ok g \<Longrightarrow> game_ok (handle_help g a)"
  by (simp add: handle_help_def Let_def game_ok_ui_log)

lemma game_ok_handle_quit: "game_ok g \<Longrightarrow> game_ok (handle_quit g a)"
  by (auto simp: handle_quit_def game_ok_def log_ok_def num_rooms_def split: option.splits)

lemma game_ok_dispatch: "game_ok g \<Longrightarrow> game_ok (parse_and_execute_command g input)"
  by (simp add: parse_and_execute_command_def lookup_command_table Let_def
                game_ok_handle_quit game_ok_handle_look game_ok_handle_go game_ok_handle_help
                game_ok_ui_log
           split: option.splits prod.splits)

lemma game_ok_dispatch_all: "game_ok g \<Longrightarrow> game_ok (dispatch_all g typed_lines)"
  by (induction typed_lines arbitrary: g) (simp_all add: game_ok_dispatch)

section \<open>Lemmas: what a loaded world holds\<close>

lemma map_description_set_exit [simp]:
  "map description (set_exit rooms i d j) = map description rooms"
proof (cases "i < length rooms")
  case True
  then have "(map description rooms)[i := description (rooms ! i)] = map description rooms"
    by (simp add: list_update_same_conv)
  then show ?thesis by (simp add: set_exit_def map_update)
next
  case False
  then show ?thesis by (simp add: set_exit_def list_update_beyond)
qed

lemma map_description_connect [simp]: "map description (connect rooms e) = map description rooms"
  by (cases e) (simp add: connect_triple)

lemma map_description_foldl_connect [simp]:
  "map description (foldl connect rooms es) = map description rooms"
  by (induction es arbitrary: rooms) auto

lemma map_room_id_loaded [simp]: "map room_id (loaded_rooms ls) = declared_ids ls"
  by (simp add: loaded_rooms_def declared_ids_def)

lemma map_description_loaded [simp]:
  "map description (loaded_rooms ls) = map description (declared_rooms ls)"
  by (simp add: loaded_rooms_def)

lemma length_loaded [simp]: "length (loaded_rooms ls) = length (declared_rooms ls)"
  by (simp add: loaded_rooms_def)

lemma length_declared_rooms: "length (declared_rooms ls) \<le> length (filter is_room_line ls)"
  by (induction ls) (auto simp: declared_rooms_Cons split: option.splits)

lemma declared_rooms_mem:
  "r \<in> set ls \<Longrightarrow> is_room_line r \<Longrightarrow> sscanf_room r = Some (rid, desc) \<Longrightarrow>
   new_room rid desc \<in> set (declared_rooms ls)"
  by (induction ls) (auto simp: declared_rooms_Cons)

lemma link_slots_append: "link_slots (xs @ ys) = link_slots xs @ link_slots ys"
  by (simp add: link_slots_def)

lemma link_slots_Cons:
  "link_slots (l # ls) =
     (if is_link_line l
      then (case sscanf_link l of
              Overrun \<Rightarrow> []
            | Returns None \<Rightarrow> []
            | Returns (Some (f, dir_str, t)) \<Rightarrow> [(f, dir_str)])
           @ link_slots ls
      else link_slots ls)"
  by (simp add: link_slots_def)

lemma link_slot_mem:
  "l \<in> set ls \<Longrightarrow> is_link_line l \<Longrightarrow> link_slot l f d \<Longrightarrow>
   (f, direction_letter d) \<in> set (link_slots ls)"
  by (induction ls) (auto simp: link_slots_Cons link_slot_def split: option.splits outcome.splits)

lemma distinct_slots_last:
  assumes "distinct (link_slots ls)" and "l \<in> set ls" and "is_link_line l"
    and "sscanf_link l = Returns (Some (f, direction_letter d, t))"
  shows "\<exists>pre post. ls = pre @ l # post \<and> (\<forall>l' \<in> set post. is_link_line l' \<longrightarrow> \<not> link_slot l' f d)"
proof -
  from assms(2) obtain pre post where split: "ls = pre @ l # post"
    by (auto simp: in_set_conv_decomp)
  have "link_slots ls = link_slots pre @ (f, direction_letter d) # link_slots post"
    using split assms(3,4) by (simp add: link_slots_append link_slots_Cons)
  with assms(1) have "(f, direction_letter d) \<notin> set (link_slots post)"
    by simp
  then have "\<forall>l' \<in> set post. is_link_line l' \<longrightarrow> \<not> link_slot l' f d"
    using link_slot_mem by blast
  with split show ?thesis by blast
qed

lemma distinct_ids_room:
  assumes "distinct (map room_id rs)" and "x \<in> set rs" and "j < length rs"
    and "room_id (rs ! j) = room_id x"
  shows "rs ! j = x"
proof -
  from assms(2) obtain k where k: "k < length rs" "rs ! k = x"
    by (auto simp: in_set_conv_nth)
  have "map room_id rs ! j = map room_id rs ! k"
    using assms(3,4) k by simp
  then have "j = k"
    using assms(1,3) k(1) nth_eq_iff_index_eq [of "map room_id rs" j k] by simp
  with k show ?thesis by simp
qed


lemma loaded_exit_declared:
  assumes "r < length (declared_rooms ls)" and "room_exit (loaded_rooms ls) r d = Some t"
  shows "\<exists>l \<in> set ls. is_link_line l \<and>
           (\<exists>f dir_str to_id. sscanf_link l = Returns (Some (f, dir_str, to_id))
              \<and> direction_code dir_str = Some d
              \<and> find_room_loop (declared_rooms ls) 0 f = Some r
              \<and> find_room_loop (declared_rooms ls) 0 to_id = Some t)"
proof -
  have "last_edge (link_edges (declared_rooms ls) ls) r d = Some t"
    using room_exit_loaded [OF assms(1), of d] assms(2) by simp
  then have "(r, d, t) \<in> set (link_edges (declared_rooms ls) ls)"
    by (rule last_edge_Some)
  then obtain l where l: "l \<in> set ls" "is_link_line l"
      "link_edge (declared_rooms ls) l = Some (r, d, t)"
    by (auto simp: link_edges_mem)
  from link_edge_SomeD [OF l(3)] l(1,2) show ?thesis
    by blast
qed

section \<open>Lemmas: the buffers of the loader and of the handlers\<close>

lemma read_chunk_length: "length (fst (read_chunk k stream)) \<le> k"
  by (induction k stream rule: read_chunk.induct) (auto split: prod.splits)

lemma fgets_lines_length: "l \<in> set (fgets_lines stream) \<Longrightarrow> length l < 512"
proof (induction stream rule: fgets_lines.induct)
  case (1 stream)
  show ?case
  proof (cases "fgets 512 stream")
    case None
    with "1.prems" show ?thesis
      by (subst (asm) fgets_lines.simps) simp
  next
    case (Some a)
    obtain line rest where a: "a = (line, rest)" by (cases a)
    have "length line \<le> 511"
      using Some a read_chunk_length [of 511 stream]
      by (auto simp: fgets_def split: if_splits)
    moreover have "l = line \<or> l \<in> set (fgets_lines rest)"
      using "1.prems" Some a by (subst (asm) fgets_lines.simps) simp
    ultimately show ?thesis
      using "1.IH" [OF Some a [symmetric]] by auto
  qed
qed

lemma file_lines_length: "l \<in> set (file_lines file) \<Longrightarrow> length l < 512"
proof -
  assume "l \<in> set (file_lines file)"
  then obtain b where b: "b \<in> set (fgets_lines file)" "l = c_str b"
    by (auto simp: file_lines_def)
  have "length (c_str b) \<le> length b"
    by (simp add: c_str_def length_takeWhile_le)
  with b fgets_lines_length [OF b(1)] show ?thesis
    by simp
qed

lemma match_literal_length:
  "match_literal p s = Some r \<Longrightarrow> length s = length p + length r"
  by (induction p s rule: match_literal.induct) (auto split: if_splits)

lemma skip_space_length: "length (skip_space s) \<le> length s"
  by (simp add: skip_space_def length_dropWhile_le)

lemma scan_int_length: "scan_int s = Some (v, r) \<Longrightarrow> length r \<le> length s"
proof -
  assume a: "scan_int s = Some (v, r)"
  let ?s1 = "skip_space s"
  let ?s2 = "if take 1 ?s1 = ''-'' \<or> take 1 ?s1 = ''+'' then drop 1 ?s1 else ?s1"
  have r: "r = dropWhile isdigit ?s2"
    using a by (auto simp: scan_int_def Let_def split: if_splits)
  have "length (dropWhile isdigit ?s2) \<le> length ?s2"
    by (rule length_dropWhile_le)
  also have "\<dots> \<le> length ?s1"
    by simp
  also have "\<dots> \<le> length s"
    by (rule skip_space_length)
  finally show ?thesis
    using r by simp
qed

lemma scan_not_quote_length: "scan_not_quote s = Some (token, r) \<Longrightarrow> length token \<le> length s"
  by (auto simp: scan_not_quote_def Let_def length_takeWhile_le split: if_splits)

text \<open>
  The description that \<^verbatim>\<open>parse_room\<close> reads from a line of the file, with its NUL,
  fits \<^verbatim>\<open>char desc[512]\<close> and \<^verbatim>\<open>char description[512]\<close>.
\<close>

lemma sscanf_room_fits:
  assumes "l \<in> set (file_lines file)" and "sscanf_room l = Some (rid, desc)"
  shows "length desc + 1 \<le> 512"
proof -
  from assms(2) obtain s1 s2 s3 s4 where
    m1: "match_literal ''room'' l = Some s1" and
    i: "scan_int (skip_space s1) = Some (rid, s2)" and
    m2: "match_literal [CHR 0x22] (skip_space s2) = Some s3" and
    q: "scan_not_quote s3 = Some (desc, s4)"
    by (auto simp: sscanf_room_def split: option.splits)
  have "length desc \<le> length s3"
    using q by (rule scan_not_quote_length)
  also have "\<dots> \<le> length (skip_space s2)"
    using match_literal_length [OF m2] by simp
  also have "\<dots> \<le> length s2"
    by (rule skip_space_length)
  also have "\<dots> \<le> length (skip_space s1)"
    using i by (rule scan_int_length)
  also have "\<dots> \<le> length s1"
    by (rule skip_space_length)
  also have "\<dots> \<le> length l"
    using match_literal_length [OF m1] by simp
  finally show ?thesis
    using file_lines_length [OF assms(1)] by simp
qed

text \<open>The direction token that an accepted link line stores fits \<^verbatim>\<open>char dir_str[10]\<close>.\<close>

lemma sscanf_link_fits:
  "sscanf_link l = Returns (Some (from_id, dir_str, to_id)) \<Longrightarrow> length dir_str + 1 \<le> DIR_STR_SIZE"
  by (auto simp: sscanf_link_def split: option.splits if_splits)

lemma sscanf_link_Overrun_iff:
  "sscanf_link l = Overrun \<longleftrightarrow>
     (\<exists>s1 from_id s2 dir_str s3.
         match_literal ''link'' l = Some s1 \<and> scan_int (skip_space s1) = Some (from_id, s2)
       \<and> scan_string (skip_space s2) = Some (dir_str, s3) \<and> length dir_str \<ge> DIR_STR_SIZE)"
  by (auto simp: sscanf_link_def split: option.splits if_splits)

text \<open>The exits line of \<^verbatim>\<open>handle_look\<close>, with its NUL, fits \<^verbatim>\<open>char exits_str[100]\<close>.\<close>

lemma exits_loop_length:
  "length (fst (exits_loop room ds (exits_str, found))) \<le> length exits_str + 6 * length ds"
proof (induction ds arbitrary: exits_str found)
  case Nil
  then show ?case by simp
next
  case (Cons d ds)
  have "length (direction_to_string d) \<le> 5"
    by (cases d) auto
  then show ?case
    using Cons [of "exits_str @ direction_to_string d @ '' ''" True] Cons [of exits_str found]
    by auto
qed

lemma exits_str_fits:
  "length (fst (exits_loop room [NORTH, SOUTH, EAST, WEST] (''Exits: '', False))) + 1 \<le> 100"
  using exits_loop_length [of room "[NORTH, SOUTH, EAST, WEST]" "''Exits: ''" False] by simp

section \<open>Claims about the transcript log\<close>

text \<open>
  C7. The transcript never holds more than \<^verbatim>\<open>MAX_LOG_MESSAGES\<close> = 10 entries. For every
  log state of a running game and every message, \<^verbatim>\<open>ui_log\<close> keeps the bound; when the
  log already holds 10 entries the new transcript is the old one without its oldest
  entry, followed by the message, and otherwise it is the old one followed by the
  message, nothing being evicted.
\<close>

theorem ui_log_evicts_oldest_when_full:
  assumes "log_ok game"
  shows "MAX_LOG_MESSAGES = 10
         \<and> log_ok (ui_log game message)
         \<and> length (transcript (ui_log game message)) \<le> MAX_LOG_MESSAGES
         \<and> (length (transcript game) = MAX_LOG_MESSAGES \<longrightarrow>
              transcript (ui_log game message) = tl (transcript game) @ [message])
         \<and> (length (transcript game) \<noteq> MAX_LOG_MESSAGES \<longrightarrow>
              transcript (ui_log game message) = transcript game @ [message])"
proof -
  have len: "length (transcript game) = log_count game"
    using assms by (simp add: transcript_def log_ok_def)
  have ok': "log_ok (ui_log game message)"
    using assms by (rule log_ok_ui_log)
  then have "length (transcript (ui_log game message)) \<le> MAX_LOG_MESSAGES"
    by (simp add: transcript_def log_ok_def)
  with ok' len show ?thesis
    using transcript_ui_log [OF assms, of message] by (simp add: MAX_LOG_MESSAGES_def)
qed

theorem ui_log_evicts_oldest_when_full_witness:
  "log_ok full_log_game
   \<and> transcript full_log_game =
       [''m0'', ''m1'', ''m2'', ''m3'', ''m4'', ''m5'', ''m6'', ''m7'', ''m8'', ''m9'']
   \<and> transcript (ui_log full_log_game ''new'') =
       [''m1'', ''m2'', ''m3'', ''m4'', ''m5'', ''m6'', ''m7'', ''m8'', ''m9'', ''new'']
   \<and> log_ok zeroed_game
   \<and> transcript (ui_log zeroed_game ''new'') = [''new'']"
proof -
  have a: "log_ok full_log_game"
    by (simp add: log_ok_def full_log_game_def MAX_LOG_MESSAGES_def)
  have b: "log_ok zeroed_game"
    by (simp add: log_ok_def zeroed_game_def MAX_LOG_MESSAGES_def)
  have t: "transcript full_log_game =
       [''m0'', ''m1'', ''m2'', ''m3'', ''m4'', ''m5'', ''m6'', ''m7'', ''m8'', ''m9'']"
    by (simp add: transcript_def full_log_game_def)
  have z: "transcript zeroed_game = []"
    by (simp add: transcript_def zeroed_game_def)
  have len: "length (transcript full_log_game) = MAX_LOG_MESSAGES"
    by (simp add: t MAX_LOG_MESSAGES_def)
  have len0: "length (transcript zeroed_game) \<noteq> MAX_LOG_MESSAGES"
    by (simp add: z MAX_LOG_MESSAGES_def)
  have "transcript (ui_log full_log_game ''new'') = tl (transcript full_log_game) @ [''new'']"
    using ui_log_evicts_oldest_when_full [OF a, of "''new''"] len by blast
  moreover have "transcript (ui_log zeroed_game ''new'') = transcript zeroed_game @ [''new'']"
    using ui_log_evicts_oldest_when_full [OF b, of "''new''"] len0 by blast
  ultimately show ?thesis
    using a b by (simp add: t z)
qed

section \<open>Claims about the command handlers\<close>

text \<open>
  C5. For every \<^verbatim>\<open>go\<close> command whose argument names a direction, by its letter
  (\<^verbatim>\<open>n\<close>, \<^verbatim>\<open>s\<close>, \<^verbatim>\<open>e\<close>, \<^verbatim>\<open>w\<close>) or by its word (\<^verbatim>\<open>north\<close>, \<^verbatim>\<open>south\<close>,
  \<^verbatim>\<open>east\<close>, \<^verbatim>\<open>west\<close>), in which the current room of the player has an exit,
  \<^verbatim>\<open>handle_go\<close> sets the current room to the target of the exit in that direction
  and then performs \<^verbatim>\<open>handle_look\<close> there: the description of the destination room
  and its exits line are the last two entries of the transcript, after the entries of
  the old transcript that the bound of the log leaves room for. The world and the
  termination flag are unchanged.
\<close>

theorem handle_go_moves_and_looks:
  assumes "game_ok game"
    and "current_room game = Some here"
    and "arg = direction_letter dir \<or> arg = direction_to_string dir"
    and "exits (all_rooms game ! here) ! dir_index dir = Some target"
  shows "current_room (handle_go game (Some arg)) = Some target
         \<and> handle_go game (Some arg) = handle_look (game\<lparr>current_room := Some target\<rparr>) None
         \<and> transcript (handle_go game (Some arg)) =
             drop (length (transcript game) + 2 - MAX_LOG_MESSAGES) (transcript game)
             @ [description (all_rooms game ! target), exits_line (all_rooms game ! target)]
         \<and> all_rooms (handle_go game (Some arg)) = all_rooms game
         \<and> game_should_close (handle_go game (Some arg)) = game_should_close game"
proof -
  let ?moved = "game\<lparr>current_room := Some target\<rparr>"
  have dir: "go_direction arg = Some dir"
    using assms(3) by (simp add: go_direction_iff)
  have go: "handle_go game (Some arg) = handle_look ?moved None"
    using assms(2,4) dir by (simp add: handle_go_def)
  have ok: "log_ok ?moved"
    using assms(1) by (simp add: game_ok_def)
  have "transcript (handle_look ?moved None) =
          drop (length (transcript game) + 2 - MAX_LOG_MESSAGES) (transcript game)
          @ [description (all_rooms game ! target), exits_line (all_rooms game ! target)]"
    using transcript_ui_log_twice [OF ok] by (simp add: handle_look_eq)
  then show ?thesis
    by (simp add: go)
qed

theorem handle_go_moves_and_looks_witness:
  "game_ok example_game
   \<and> current_room example_game = Some 0
   \<and> ''north'' = direction_to_string NORTH
   \<and> exits (all_rooms example_game ! 0) ! dir_index NORTH = Some 1
   \<and> parse_and_execute_command example_game ''go north'' = handle_go example_game (Some ''north'')
   \<and> current_room (handle_go example_game (Some ''north'')) = Some 1
   \<and> transcript (handle_go example_game (Some ''north'')) =
        [''Welcome to the Awesome Text Adventure! Type 'help' for commands.'',
         ''A'', ''Exits: north '', ''B'', ''Exits: south '']
   \<and> game_ok (handle_go example_game (Some ''north''))
   \<and> ''s'' = direction_letter SOUTH
   \<and> exits (all_rooms (handle_go example_game (Some ''north'')) ! 1) ! dir_index SOUTH = Some 0
   \<and> current_room (handle_go (handle_go example_game (Some ''north'')) (Some ''s'')) = Some 0
   \<and> transcript (handle_go (handle_go example_game (Some ''north'')) (Some ''s'')) =
        [''Welcome to the Awesome Text Adventure! Type 'help' for commands.'',
         ''A'', ''Exits: north '', ''B'', ''Exits: south '', ''A'', ''Exits: north '']"
proof -
  let ?north = "handle_go example_game (Some ''north'')"
  have a: "game_ok example_game" by code_simp
  have b: "current_room example_game = Some 0" by code_simp
  have c: "''north'' = direction_to_string NORTH" by simp
  have d: "exits (all_rooms example_game ! 0) ! dir_index NORTH = Some 1" by code_simp
  have e: "parse_and_execute_command example_game ''go north'' =
             handle_go example_game (Some ''north'')"
    by code_simp
  have f: "drop (length (transcript example_game) + 2 - MAX_LOG_MESSAGES) (transcript example_game)
             @ [description (all_rooms example_game ! 1), exits_line (all_rooms example_game ! 1)] =
           [''Welcome to the Awesome Text Adventure! Type 'help' for commands.'',
            ''A'', ''Exits: north '', ''B'', ''Exits: south '']"
    by code_simp
  note moved = handle_go_moves_and_looks [OF a b disjI2 [OF c] d]
  have g: "current_room ?north = Some 1"
    using moved by blast
  have h: "transcript ?north =
           [''Welcome to the Awesome Text Adventure! Type 'help' for commands.'',
            ''A'', ''Exits: north '', ''B'', ''Exits: south '']"
    using moved [THEN conjunct2, THEN conjunct2, THEN conjunct1] f by (rule trans)
  have i: "game_ok ?north"
    using a by (rule game_ok_handle_go)
  have j: "''s'' = direction_letter SOUTH" by simp
  have rooms: "all_rooms ?north = all_rooms example_game"
    using moved by blast
  have k: "exits (all_rooms ?north ! 1) ! dir_index SOUTH = Some 0"
    unfolding rooms by code_simp
  note again = handle_go_moves_and_looks [OF i g disjI1 [OF j] k]
  have l: "current_room (handle_go ?north (Some ''s'')) = Some 0"
    using again by blast
  have m: "drop (length (transcript ?north) + 2 - MAX_LOG_MESSAGES) (transcript ?north)
             @ [description (all_rooms ?north ! 0), exits_line (all_rooms ?north ! 0)] =
           [''Welcome to the Awesome Text Adventure! Type 'help' for commands.'',
            ''A'', ''Exits: north '', ''B'', ''Exits: south '', ''A'', ''Exits: north '']"
    unfolding rooms h by code_simp
  have n: "transcript (handle_go ?north (Some ''s'')) =
           [''Welcome to the Awesome Text Adventure! Type 'help' for commands.'',
            ''A'', ''Exits: north '', ''B'', ''Exits: south '', ''A'', ''Exits: north '']"
    using again [THEN conjunct2, THEN conjunct2, THEN conjunct1] m by (rule trans)
  show ?thesis
    by (intro conjI a b c d e g h i j k l n)
qed



section \<open>Claims about the game loop\<close>

text \<open>
  C4, as the code has it. \<^verbatim>\<open>game_loop\<close> tests only \<^verbatim>\<open>game_should_close\<close>, and
  only \<^verbatim>\<open>handle_quit\<close> sets it. The dispatcher sees of each line typed what
  \<^verbatim>\<open>ui_get_input\<close> stores, its first \<^verbatim>\<open>INPUT_BUFFER_SIZE - 1\<close> = 99 characters, and
  a quit command is a line whose stored part, lower-cased, has \<^verbatim>\<open>quit\<close> or
  \<^verbatim>\<open>exit\<close> as its first token (tokens are separated by spaces and newlines). When
  the input holds a quit command, the loop returns right after the dispatch of the
  first one: the lines before it and that line have been dispatched, the lines after
  it are never read, and the game it returns is again one the handlers run on. End of
  input does not set the flag: on an input without a quit command the loop does not
  return.
\<close>

theorem game_loop_returns_at_first_quit_only:
  assumes "game_ok game" and "\<not> game_should_close game"
  shows "(\<forall>before q after.
             pending = before @ q # after
             \<and> (\<forall>l \<in> set before. \<not> is_quit_command (buffered l))
             \<and> is_quit_command (buffered q) \<longrightarrow>
             game_loop game pending = Some (dispatch_all game (before @ [q]), after)
             \<and> \<not> game_should_close (dispatch_all game before)
             \<and> game_should_close (dispatch_all game (before @ [q]))
             \<and> game_ok (dispatch_all game (before @ [q])))
         \<and> ((\<forall>l \<in> set pending. \<not> is_quit_command (buffered l)) \<longrightarrow>
             game_loop game pending = None)"
proof -
  have stay: "\<not> game_should_close (dispatch_all game before)"
    if "\<forall>l \<in> set before. \<not> is_quit_command (buffered l)" for before
    using that assms(2)
  proof (induction before rule: rev_induct)
    case Nil
    then show ?case by simp
  next
    case (snoc l before)
    then show ?case
      by (simp add: dispatch_all_append dispatch_close)
  qed
  have stop: "game_should_close (dispatch_all game (before @ [q]))"
    if "is_quit_command (buffered q)" for before q
    using that by (simp add: dispatch_all_append dispatch_close)
  have ok: "\<And>typed_lines. game_ok (dispatch_all game typed_lines)"
    using assms(1) by (rule game_ok_dispatch_all)
  show ?thesis
    using assms(2) stay stop ok game_loop_first_quit [of game]
      game_loop_no_quit [of game pending]
    by blast
qed

theorem game_loop_returns_at_first_quit_only_witness:
  "game_ok example_game \<and> \<not> game_should_close example_game
   \<and> \<not> is_quit_command (buffered ''go north'')
   \<and> is_quit_command (buffered ''Quit'')
   \<and> game_loop example_game [''go north'', ''Quit'', ''look''] =
        Some (dispatch_all example_game [''go north'', ''Quit''], [''look''])
   \<and> game_loop example_game [''go north''] = None
   \<and> length late_quit = 100 \<and> \<not> is_quit_command (buffered late_quit)
   \<and> game_loop example_game [late_quit] = None
   \<and> length cut_quit = 100 \<and> is_quit_command (buffered cut_quit)
   \<and> game_loop example_game [cut_quit, ''look''] =
        Some (dispatch_all example_game [cut_quit], [''look''])"
proof -
  have a: "game_ok example_game" by code_simp
  have b: "\<not> game_should_close example_game" by code_simp
  have c: "\<not> is_quit_command (buffered ''go north'')" by code_simp
  have d: "is_quit_command (buffered ''Quit'')" by code_simp
  note loop = game_loop_returns_at_first_quit_only [OF a b]
  have e: "game_loop example_game [''go north'', ''Quit'', ''look''] =
             Some (dispatch_all example_game [''go north'', ''Quit''], [''look''])"
    using loop [of "[''go north'', ''Quit'', ''look'']", THEN conjunct1, rule_format,
                of "[''go north'']" "''Quit''" "[''look'']"] c d
    by simp
  have f: "game_loop example_game [''go north''] = None"
    using loop [of "[''go north'']", THEN conjunct2] c by simp
  have g: "length late_quit = 100" by code_simp
  have h: "\<not> is_quit_command (buffered late_quit)" by code_simp
  have i: "game_loop example_game [late_quit] = None"
    using loop [of "[late_quit]", THEN conjunct2] h by simp
  have j: "length cut_quit = 100" by code_simp
  have k: "is_quit_command (buffered cut_quit)" by code_simp
  have l: "game_loop example_game [cut_quit, ''look''] =
             Some (dispatch_all example_game [cut_quit], [''look''])"
    using loop [of "[cut_quit, ''look'']", THEN conjunct1, rule_format,
                of "[]" cut_quit "[''look'']"] k
    by simp
  show ?thesis
    by (intro conjI a b c d e f g h i j k l)
qed

theorem game_loop_end_of_input_counterexample:
  "game_ok example_game \<and> \<not> game_should_close example_game
   \<and> game_loop example_game [''look''] = None
   \<and> game_loop example_game [] = None"
proof -
  have a: "game_ok example_game" by code_simp
  have b: "\<not> game_should_close example_game" by code_simp
  have c: "\<not> is_quit_command (buffered ''look'')" by code_simp
  have "game_loop example_game [''look''] = None"
    using game_loop_no_quit [OF b, of "[''look'']"] c by simp
  moreover have "game_loop example_game [] = None"
    using game_loop_exhausted [OF b] .
  ultimately show ?thesis
    using a b by simp
qed

section \<open>Claims about the loader\<close>

text \<open>
  C1. For every well-formed map and every link line of it, wherever in the file the
  rooms it names are declared, in particular after the link line, \<^verbatim>\<open>load_world\<close>
  succeeds and the exit of the from-room in the direction that the letter of the link
  line names (\<^verbatim>\<open>n\<close> north, \<^verbatim>\<open>s\<close> south, \<^verbatim>\<open>e\<close> east, \<^verbatim>\<open>w\<close> west) is the room
  declared with the to-id: the room that \<^verbatim>\<open>find_room_by_id\<close> returns for the to-id,
  which carries the description of the declaring line.
\<close>

theorem load_world_resolves_forward_links:
  assumes "well_formed_map file"
    and "l \<in> set (file_lines file)" and "is_link_line l"
    and "sscanf_link l = Returns (Some (from_id, direction_letter d, to_id))"
    and "r \<in> set (file_lines file)" and "is_room_line r"
    and "sscanf_room r = Some (to_id, desc)"
  shows "\<exists>g i j. load_world (Some file) = Returns (Some g)
           \<and> find_room_by_id g from_id = Some i \<and> find_room_by_id g to_id = Some j
           \<and> room_id (all_rooms g ! i) = from_id
           \<and> room_id (all_rooms g ! j) = to_id \<and> description (all_rooms g ! j) = desc
           \<and> exits (all_rooms g ! i) ! dir_index d = Some j"
proof -
  let ?ls = "file_lines file"
  have valid: "lines_valid ?ls" and ids: "distinct (declared_ids ?ls)"
    and slots: "distinct (link_slots ?ls)"
    using assms(1) by (simp_all add: well_formed_map_def)
  from distinct_slots_last [OF slots assms(2,3,4)] obtain pre post where
    split: "?ls = pre @ l # post"
    and last: "\<forall>l' \<in> set post. is_link_line l' \<longrightarrow> \<not> link_slot l' from_id d"
    by blast
  from load_world_last_link [OF valid split assms(3,4) last] obtain g i j where
    g: "load_world (Some file) = Returns (Some g)" "find_room_by_id g from_id = Some i"
       "find_room_by_id g to_id = Some j" "room_exit (all_rooms g) i d = Some j"
    by blast
  have rooms: "all_rooms g = loaded_rooms ?ls"
    using g(1) by (simp add: load_world_Some_iff)
  have fi: "i < length (all_rooms g)" "room_id (all_rooms g ! i) = from_id"
    using find_room_loop_Some [of "all_rooms g" 0 from_id i] g(2)
    by (simp_all add: find_room_by_id_def)
  have fj: "j < length (all_rooms g)" "room_id (all_rooms g ! j) = to_id"
    using find_room_loop_Some [of "all_rooms g" 0 to_id j] g(3)
    by (simp_all add: find_room_by_id_def)
  have j: "j < length (declared_rooms ?ls)"
    using fj(1) rooms by simp
  have "room_id (declared_rooms ?ls ! j) = to_id"
    using fj j rooms map_room_id_loaded [of ?ls]
    by (metis declared_ids_def length_map nth_map)
  moreover have "new_room to_id desc \<in> set (declared_rooms ?ls)"
    using assms(5,6,7) by (rule declared_rooms_mem)
  ultimately have "declared_rooms ?ls ! j = new_room to_id desc"
    using distinct_ids_room [of "declared_rooms ?ls" "new_room to_id desc" j] ids j
    by (simp add: declared_ids_def new_room_def)
  then have "description (declared_rooms ?ls ! j) = desc"
    by (simp add: new_room_def)
  moreover have "description (all_rooms g ! j) = description (declared_rooms ?ls ! j)"
    using j rooms map_description_loaded [of ?ls]
    by (metis length_loaded length_map nth_map)
  ultimately have "description (all_rooms g ! j) = desc"
    by simp
  moreover have "exits (all_rooms g ! i) ! dir_index d = Some j"
    using g(4) by (simp add: room_exit_def)
  ultimately show ?thesis
    using g fi fj by blast
qed

theorem load_world_resolves_forward_links_witness:
  \<open>well_formed_map example_map
   \<and> file_lines example_map =
       [''link 1 s 0\<newline>'', ''room 0 "A"\<newline>'', ''room 1 "B"\<newline>'', ''link 0 n 1\<newline>'']
   \<and> is_link_line ''link 1 s 0\<newline>''
   \<and> sscanf_link ''link 1 s 0\<newline>'' = Returns (Some (1, direction_letter SOUTH, 0))
   \<and> is_room_line ''room 0 "A"\<newline>''
   \<and> sscanf_room ''room 0 "A"\<newline>'' = Some (0, ''A'')
   \<and> (\<exists>g i j. load_world (Some example_map) = Returns (Some g)
         \<and> find_room_by_id g 1 = Some i \<and> find_room_by_id g 0 = Some j
         \<and> room_id (all_rooms g ! i) = 1
         \<and> room_id (all_rooms g ! j) = 0 \<and> description (all_rooms g ! j) = ''A''
         \<and> exits (all_rooms g ! i) ! dir_index SOUTH = Some j)
   \<and> load_world (Some example_map) = Returns (Some example_world)
   \<and> map exits (all_rooms example_world) =
       [[Some 1, None, None, None], [None, Some 0, None, None]]\<close>
proof -
  have a: "well_formed_map example_map" by code_simp
  have b: \<open>file_lines example_map =
       [''link 1 s 0\<newline>'', ''room 0 "A"\<newline>'', ''room 1 "B"\<newline>'', ''link 0 n 1\<newline>'']\<close>
    by (rule file_lines_example)
  have c: \<open>is_link_line ''link 1 s 0\<newline>''\<close> by code_simp
  have d: \<open>sscanf_link ''link 1 s 0\<newline>'' = Returns (Some (1, direction_letter SOUTH, 0))\<close>
    by code_simp
  have f: \<open>is_room_line ''room 0 "A"\<newline>''\<close> by code_simp
  have g: \<open>sscanf_room ''room 0 "A"\<newline>'' = Some (0, ''A'')\<close> by code_simp
  have l: \<open>''link 1 s 0\<newline>'' \<in> set (file_lines example_map)\<close>
    by (simp add: b)
  have r: \<open>''room 0 "A"\<newline>'' \<in> set (file_lines example_map)\<close>
    by (simp add: b)
  note h = load_world_resolves_forward_links [OF a l c d r f g]
  have i: "load_world (Some example_map) = Returns (Some example_world)"
    by (rule load_example)
  have j: "map exits (all_rooms example_world) =
             [[Some 1, None, None, None], [None, Some 0, None, None]]"
    by code_simp
  show ?thesis
    by (intro conjI a b c d f g h i j)
qed

text \<open>
  C10. When several link lines name the same from-room and direction, the load still
  succeeds and the last of them in file order decides the exit: for every map whose
  lines are valid and every link line that no later link line of the same from-id and
  direction letter follows, the exit of the from-room in the direction that the letter
  names is the room of its to-id, whatever earlier link lines said.
\<close>

theorem load_world_last_duplicate_link_wins:
  assumes "lines_valid (file_lines file)"
    and "file_lines file = before @ l # after"
    and "is_link_line l"
    and "sscanf_link l = Returns (Some (from_id, direction_letter d, to_id))"
    and "\<forall>l' \<in> set after. is_link_line l' \<longrightarrow>
           (\<forall>f dir_str t. sscanf_link l' = Returns (Some (f, dir_str, t)) \<longrightarrow>
              \<not> (f = from_id \<and> dir_str = direction_letter d))"
  shows "\<exists>g i j. load_world (Some file) = Returns (Some g)
           \<and> find_room_by_id g from_id = Some i \<and> find_room_by_id g to_id = Some j
           \<and> exits (all_rooms g ! i) ! dir_index d = Some j"
proof -
  have "\<forall>l' \<in> set after. is_link_line l' \<longrightarrow> \<not> link_slot l' from_id d"
    using assms(5) by (auto simp: link_slot_def split: outcome.splits option.splits)
  from load_world_last_link [OF assms(1,2,3,4) this] show ?thesis
    by (simp add: room_exit_def)
qed

theorem load_world_last_duplicate_link_wins_witness:
  \<open>lines_valid (file_lines dup_links_map)
   \<and> file_lines dup_links_map =
       [''room 0 "A"\<newline>'', ''room 1 "B"\<newline>'', ''room 2 "C"\<newline>'', ''link 0 s 1\<newline>'']
       @ ''link 0 s 2\<newline>'' # [''link 1 n 0\<newline>'']
   \<and> is_link_line ''link 0 s 1\<newline>''
   \<and> sscanf_link ''link 0 s 1\<newline>'' = Returns (Some (0, direction_letter SOUTH, 1))
   \<and> is_link_line ''link 0 s 2\<newline>''
   \<and> sscanf_link ''link 0 s 2\<newline>'' = Returns (Some (0, direction_letter SOUTH, 2))
   \<and> sscanf_link ''link 1 n 0\<newline>'' = Returns (Some (1, ''n'', 0))
   \<and> (\<exists>g i j. load_world (Some dup_links_map) = Returns (Some g)
         \<and> find_room_by_id g 0 = Some i \<and> find_room_by_id g 2 = Some j
         \<and> exits (all_rooms g ! i) ! dir_index SOUTH = Some j)
   \<and> map exits (case load_world (Some dup_links_map) of
                   Returns (Some g) \<Rightarrow> all_rooms g | _ \<Rightarrow> []) =
       [[None, Some 2, None, None], [Some 0, None, None, None], [None, None, None, None]]\<close>
proof -
  have a: "lines_valid (file_lines dup_links_map)" by code_simp
  have b: \<open>file_lines dup_links_map =
       [''room 0 "A"\<newline>'', ''room 1 "B"\<newline>'', ''room 2 "C"\<newline>'', ''link 0 s 1\<newline>'']
       @ ''link 0 s 2\<newline>'' # [''link 1 n 0\<newline>'']\<close>
    by code_simp
  have c: \<open>is_link_line ''link 0 s 1\<newline>''\<close> by code_simp
  have c': \<open>sscanf_link ''link 0 s 1\<newline>'' = Returns (Some (0, direction_letter SOUTH, 1))\<close>
    by code_simp
  have d: \<open>is_link_line ''link 0 s 2\<newline>''\<close> by code_simp
  have e: \<open>sscanf_link ''link 0 s 2\<newline>'' = Returns (Some (0, direction_letter SOUTH, 2))\<close>
    by code_simp
  have f: \<open>sscanf_link ''link 1 n 0\<newline>'' = Returns (Some (1, ''n'', 0))\<close> by code_simp
  have g: \<open>\<forall>l' \<in> set [''link 1 n 0\<newline>'']. is_link_line l' \<longrightarrow>
           (\<forall>f dir_str t. sscanf_link l' = Returns (Some (f, dir_str, t)) \<longrightarrow>
              \<not> (f = 0 \<and> dir_str = direction_letter SOUTH))\<close>
    by (simp add: f)
  note h = load_world_last_duplicate_link_wins [OF a b d e g]
  have i: "map exits (case load_world (Some dup_links_map) of
                        Returns (Some g) \<Rightarrow> all_rooms g | _ \<Rightarrow> []) =
       [[None, Some 2, None, None], [Some 0, None, None, None], [None, None, None, None]]"
    by code_simp
  show ?thesis
    by (intro conjI a b c c' d e f h i)
qed







text \<open>
  C9. The room table has \<^verbatim>\<open>MAX_ROOMS\<close> = 100 entries. With the table full
  \<^verbatim>\<open>parse_room\<close> returns 0 whatever the line, so a map with more than 100 room lines
  does not load, and every world that loads has at most 100 rooms.
\<close>

theorem load_world_room_capacity:
  "MAX_ROOMS = 100
   \<and> (num_rooms game \<ge> MAX_ROOMS \<longrightarrow> parse_room line game = None)
   \<and> (length (filter is_room_line (file_lines file)) > MAX_ROOMS \<longrightarrow>
        load_world (Some file) = Returns None)
   \<and> (\<forall>g. load_world (Some file) = Returns (Some g) \<longrightarrow> num_rooms g \<le> MAX_ROOMS)"
proof -
  have "num_rooms g \<le> MAX_ROOMS" if "load_world (Some file) = Returns (Some g)" for g
  proof -
    from that have valid: "lines_valid (file_lines file)"
      and rooms: "all_rooms g = loaded_rooms (file_lines file)"
      by (simp_all add: load_world_Some_iff)
    have "num_rooms g \<le> length (filter is_room_line (file_lines file))"
      using length_declared_rooms [of "file_lines file"] by (simp add: num_rooms_def rooms)
    with valid show ?thesis
      by (simp add: lines_valid_def)
  qed
  moreover have "load_world (Some file) = Returns None"
    if "length (filter is_room_line (file_lines file)) > MAX_ROOMS"
    using that by (intro load_world_pass1_fails) simp
  ultimately show ?thesis
    by (simp add: parse_room_def MAX_ROOMS_def)
qed

theorem load_world_room_capacity_witness:
  \<open>num_rooms full_rooms_game \<ge> MAX_ROOMS
   \<and> parse_room ''room 7 "y"\<newline>'' full_rooms_game = None
   \<and> sscanf_room ''room 7 "y"\<newline>'' = Some (7, ''y'')
   \<and> length (filter is_room_line (file_lines big_map)) > MAX_ROOMS
   \<and> load_world (Some big_map) = Returns None
   \<and> load_world (Some example_map) = Returns (Some example_world)
   \<and> num_rooms example_world \<le> MAX_ROOMS\<close>
proof -
  have a: "num_rooms full_rooms_game \<ge> MAX_ROOMS" by code_simp
  have b: \<open>parse_room ''room 7 "y"\<newline>'' full_rooms_game = None\<close>
    using load_world_room_capacity [of full_rooms_game _ example_map] a by blast
  have c: \<open>sscanf_room ''room 7 "y"\<newline>'' = Some (7, ''y'')\<close> by code_simp
  have d: "length (filter is_room_line (file_lines big_map)) > MAX_ROOMS" by code_simp
  have e: "load_world (Some big_map) = Returns None"
    using load_world_room_capacity [of zeroed_game "[]" big_map] d by blast
  have f: "load_world (Some example_map) = Returns (Some example_world)" by (rule load_example)
  have g: "num_rooms example_world \<le> MAX_ROOMS"
    using load_world_room_capacity [of zeroed_game "[]" example_map] f by blast
  show ?thesis
    by (intro conjI a b c d e f g)
qed

text \<open>
  C8. A link line that \<^verbatim>\<open>parse_link\<close> accepts sets the exit of its from-room in its
  direction to its to-room and changes nothing else: every other exit slot of the
  from-room and every exit slot of every other room, the to-room with its reverse
  direction among them, keeps its value, and so do the ids and descriptions of the
  rooms and the rest of the game. So after a load an exit is set only where a link
  line of the map names that room and that direction.
\<close>

theorem parse_link_sets_only_its_exit:
  "(parse_link line game = Returns (Some game') \<and> exits_ok (all_rooms game) \<longrightarrow>
      (\<exists>from_id dir_str to_id from_room dir to_room.
          sscanf_link line = Returns (Some (from_id, dir_str, to_id))
        \<and> direction_code dir_str = Some dir
        \<and> find_room_by_id game from_id = Some from_room
        \<and> find_room_by_id game to_id = Some to_room
        \<and> room_exit (all_rooms game') from_room dir = Some to_room
        \<and> (\<forall>r d. r \<noteq> from_room \<or> d \<noteq> dir \<longrightarrow>
              room_exit (all_rooms game') r d = room_exit (all_rooms game) r d)
        \<and> map room_id (all_rooms game') = map room_id (all_rooms game)
        \<and> map description (all_rooms game') = map description (all_rooms game)
        \<and> game'\<lparr>all_rooms := all_rooms game\<rparr> = game))
   \<and> (load_world (Some file) = Returns (Some g) \<and> r < num_rooms g
        \<and> room_exit (all_rooms g) r d = Some t \<longrightarrow>
      (\<exists>l \<in> set (file_lines file). \<exists>from_id dir_str to_id.
          is_link_line l \<and> sscanf_link l = Returns (Some (from_id, dir_str, to_id))
        \<and> direction_code dir_str = Some d
        \<and> find_room_by_id g from_id = Some r \<and> find_room_by_id g to_id = Some t))"
proof (intro conjI impI)
  assume step: "parse_link line game = Returns (Some game') \<and> exits_ok (all_rooms game)"
  then obtain e where e: "link_edge (all_rooms game) line = Some e"
    and game': "game' = game\<lparr>all_rooms := connect (all_rooms game) e\<rparr>"
    by (auto simp: parse_link_Some_iff)
  obtain i dir j where eq: "e = (i, dir, j)" by (cases e)
  from link_edge_SomeD [OF e [unfolded eq]] obtain from_id dir_str to_id where
    s: "sscanf_link line = Returns (Some (from_id, dir_str, to_id))"
       "find_room_loop (all_rooms game) 0 from_id = Some i"
       "find_room_loop (all_rooms game) 0 to_id = Some j"
       "direction_code dir_str = Some dir"
    by blast
  have i: "i < length (all_rooms game)"
    using link_edge_bound [OF e [unfolded eq]] by simp
  then have "length (exits (all_rooms game ! i)) = MAX_DIRECTIONS"
    using step by (simp add: exits_ok_def)
  then have set: "room_exit (all_rooms game') i dir = Some j"
    using i by (simp add: game' eq connect_triple room_exit_set_exit_same)
  have frame: "\<forall>r d. r \<noteq> i \<or> d \<noteq> dir \<longrightarrow>
                 room_exit (all_rooms game') r d = room_exit (all_rooms game) r d"
    by (simp add: game' eq connect_triple room_exit_set_exit_other)
  have rest: "map room_id (all_rooms game') = map room_id (all_rooms game)"
    "map description (all_rooms game') = map description (all_rooms game)"
    "game'\<lparr>all_rooms := all_rooms game\<rparr> = game"
    by (simp_all add: game')
  show "\<exists>from_id dir_str to_id from_room dir to_room.
          sscanf_link line = Returns (Some (from_id, dir_str, to_id))
        \<and> direction_code dir_str = Some dir
        \<and> find_room_by_id game from_id = Some from_room
        \<and> find_room_by_id game to_id = Some to_room
        \<and> room_exit (all_rooms game') from_room dir = Some to_room
        \<and> (\<forall>r d. r \<noteq> from_room \<or> d \<noteq> dir \<longrightarrow>
              room_exit (all_rooms game') r d = room_exit (all_rooms game) r d)
        \<and> map room_id (all_rooms game') = map room_id (all_rooms game)
        \<and> map description (all_rooms game') = map description (all_rooms game)
        \<and> game'\<lparr>all_rooms := all_rooms game\<rparr> = game"
    using s set frame rest unfolding find_room_by_id_def by blast
next
  assume loaded: "load_world (Some file) = Returns (Some g) \<and> r < num_rooms g
        \<and> room_exit (all_rooms g) r d = Some t"
  then have rooms: "all_rooms g = loaded_rooms (file_lines file)"
    by (simp add: load_world_Some_iff)
  have r: "r < length (declared_rooms (file_lines file))"
    using loaded rooms by (simp add: num_rooms_def)
  have x: "room_exit (loaded_rooms (file_lines file)) r d = Some t"
    using loaded rooms by simp
  have f: "\<And>rid. find_room_by_id g rid = find_room_loop (declared_rooms (file_lines file)) 0 rid"
    using rooms by (rule find_room_by_id_loaded)
  show "\<exists>l \<in> set (file_lines file). \<exists>from_id dir_str to_id.
          is_link_line l \<and> sscanf_link l = Returns (Some (from_id, dir_str, to_id))
        \<and> direction_code dir_str = Some d
        \<and> find_room_by_id g from_id = Some r \<and> find_room_by_id g to_id = Some t"
    using loaded_exit_declared [OF r x] unfolding f by blast
qed

theorem parse_link_sets_only_its_exit_witness:
  \<open>parse_link ''link 0 n 1\<newline>'' example_declared =
      Returns (Some (example_declared\<lparr>all_rooms := set_exit (all_rooms example_declared) 0 NORTH 1\<rparr>))
   \<and> exits_ok (all_rooms example_declared)
   \<and> room_exit (set_exit (all_rooms example_declared) 0 NORTH 1) 0 NORTH = Some 1
   \<and> room_exit (set_exit (all_rooms example_declared) 0 NORTH 1) 1 SOUTH =
       room_exit (all_rooms example_declared) 1 SOUTH
   \<and> room_exit (all_rooms example_declared) 1 SOUTH = None
   \<and> load_world (Some example_map) = Returns (Some example_world)
   \<and> 1 < num_rooms example_world
   \<and> room_exit (all_rooms example_world) 1 SOUTH = Some 0
   \<and> (\<exists>l \<in> set (file_lines example_map). \<exists>from_id dir_str to_id.
          is_link_line l \<and> sscanf_link l = Returns (Some (from_id, dir_str, to_id))
        \<and> direction_code dir_str = Some SOUTH
        \<and> find_room_by_id example_world from_id = Some 1
        \<and> find_room_by_id example_world to_id = Some 0)\<close>
proof -
  let ?linked = "example_declared\<lparr>all_rooms := set_exit (all_rooms example_declared) 0 NORTH 1\<rparr>"
  have a: \<open>parse_link ''link 0 n 1\<newline>'' example_declared = Returns (Some ?linked)\<close> by code_simp
  have b: "exits_ok (all_rooms example_declared)" by code_simp
  have s: \<open>sscanf_link ''link 0 n 1\<newline>'' = Returns (Some (0, ''n'', 1))\<close> by code_simp
  have dc: "direction_code ''n'' = Some NORTH" by code_simp
  have f0: "find_room_by_id example_declared 0 = Some 0" by code_simp
  have f1: "find_room_by_id example_declared 1 = Some 1" by code_simp
  from parse_link_sets_only_its_exit
         [of \<open>''link 0 n 1\<newline>''\<close> example_declared ?linked example_map example_world 1 SOUTH 0,
          THEN conjunct1, rule_format, OF conjI, OF a b]
  obtain from_id dir_str to_id from_room dir to_room where
    w: "sscanf_link ''link 0 n 1\<newline>'' = Returns (Some (from_id, dir_str, to_id))"
       "direction_code dir_str = Some dir"
       "find_room_by_id example_declared from_id = Some from_room"
       "find_room_by_id example_declared to_id = Some to_room"
       "room_exit (all_rooms ?linked) from_room dir = Some to_room"
       "\<forall>r d. r \<noteq> from_room \<or> d \<noteq> dir \<longrightarrow>
              room_exit (all_rooms ?linked) r d = room_exit (all_rooms example_declared) r d"
    by blast
  have ids: "from_room = 0" "dir = NORTH" "to_room = 1"
    using w(1,2,3,4) s dc f0 f1 by simp_all
  have c: "room_exit (set_exit (all_rooms example_declared) 0 NORTH 1) 0 NORTH = Some 1"
    using w(5) ids by simp
  have d: "room_exit (set_exit (all_rooms example_declared) 0 NORTH 1) 1 SOUTH =
             room_exit (all_rooms example_declared) 1 SOUTH"
    using w(6) ids by simp
  have e: "room_exit (all_rooms example_declared) 1 SOUTH = None" by code_simp
  have f: "load_world (Some example_map) = Returns (Some example_world)" by (rule load_example)
  have g: "1 < num_rooms example_world" by code_simp
  have h: "room_exit (all_rooms example_world) 1 SOUTH = Some 0" by code_simp
  note i = parse_link_sets_only_its_exit
         [of \<open>''link 0 n 1\<newline>''\<close> example_declared ?linked example_map example_world 1 SOUTH 0,
          THEN conjunct2, rule_format, OF conjI, OF f conjI, OF g h]
  show ?thesis
    by (intro conjI a b c d e f g h i)
qed

end
